theory Spec2Isabelle
  imports Complex_Main "HOL-Library.Multiset"
begin

section \<open>Data model\<close>

text \<open>
  The dataclass \<open>PiiMatch\<close> of \<open>pii_encrypt_md.py\<close>. Python's \<open>int\<close> is unbounded, so
  the offsets are \<open>int\<close>; \<open>str\<close> is a character list. The fields \<open>end\<close> and \<open>text\<close>
  of the source are reserved words here and carry a suffix.
\<close>

record PiiMatch =
  start :: int
  end_offset :: int
  entity_type :: string
  score :: real
  text_field :: string
  line :: int
  column :: int

section \<open>String slicing as Python does it\<close>

text \<open>
  \<open>buf[:i]\<close> and \<open>buf[j:]\<close> never raise: a negative index counts from the end, and
  every index is clamped to the range of the string.
\<close>

definition clamp_index :: "nat \<Rightarrow> int \<Rightarrow> nat" where
  "clamp_index n i = (if i < 0 then nat (int n + i) else min n (nat i))"

definition slice_to :: "'a list \<Rightarrow> int \<Rightarrow> 'a list" where
  "slice_to buf i = take (clamp_index (length buf) i) buf"

definition slice_from :: "'a list \<Rightarrow> int \<Rightarrow> 'a list" where
  "slice_from buf j = drop (clamp_index (length buf) j) buf"

definition slice :: "'a list \<Rightarrow> int \<Rightarrow> int \<Rightarrow> 'a list" where
  "slice buf i j =
     (let lo = clamp_index (length buf) i; hi = clamp_index (length buf) j
      in take (hi - lo) (drop lo buf))"

section \<open>Span indexer\<close>

definition newline :: char where
  "newline = CHR 0x0A"

text \<open>
  \<open>calculate_line_col_map\<close>: offset 0, then \<open>match.end()\<close> of every newline found by
  \<open>re.finditer\<close>, that is the offset just after it.
\<close>

fun newline_ends :: "nat \<Rightarrow> string \<Rightarrow> int list" where
  "newline_ends i [] = []"
| "newline_ends i (c # cs) =
     (if c = newline then (int i + 1) # newline_ends (Suc i) cs
      else newline_ends (Suc i) cs)"

definition calculate_line_col_map :: "string \<Rightarrow> int list" where
  "calculate_line_col_map text = 0 # newline_ends 0 text"

text \<open>
  The loop of \<open>offset_to_line_col\<close> over \<open>enumerate(line_starts)\<close>: \<open>line_index\<close> is the
  variable of that name, \<open>i\<close> the running index, and the \<open>else\<close> branch is the \<open>break\<close>.
\<close>

fun scan_line_starts :: "int \<Rightarrow> nat \<Rightarrow> nat \<Rightarrow> int list \<Rightarrow> nat" where
  "scan_line_starts offset line_index i [] = line_index"
| "scan_line_starts offset line_index i (s # rest) =
     (if s \<le> offset then scan_line_starts offset i (Suc i) rest else line_index)"

text \<open>
  \<open>line_starts[line_index]\<close> raises IndexError on an empty list (the only case where the
  index, 0 then, is out of range): that is the value \<open>None\<close>.
\<close>

definition offset_to_line_col :: "int \<Rightarrow> int list \<Rightarrow> (int \<times> int) option" where
  "offset_to_line_col offset line_starts =
     (let line_index = scan_line_starts offset 0 0 line_starts
      in if line_index < length line_starts
         then (let line_start = line_starts ! line_index;
                   line_no = int line_index + 1;
                   col_no = offset - line_start + 1
               in Some (line_no, col_no))
         else None)"

section \<open>Marker codec\<close>

text \<open>
  \<open>ENCODED_PATTERN\<close> is the regular expression
  \<^verbatim>\<open>\{\{ENC:([A-Z_]+):([A-Za-z0-9_\-]+=*)\}\}\<close>.
  Its two character classes, as predicates on one character:
\<close>

definition is_entity_char :: "char \<Rightarrow> bool" where
  "is_entity_char c \<longleftrightarrow> c \<in> set ''ABCDEFGHIJKLMNOPQRSTUVWXYZ_''"

definition is_token_char :: "char \<Rightarrow> bool" where
  "is_token_char c \<longleftrightarrow>
     c \<in> set ''ABCDEFGHIJKLMNOPQRSTUVWXYZabcdefghijklmnopqrstuvwxyz0123456789_-''"

definition is_pad_char :: "char \<Rightarrow> bool" where
  "is_pad_char c \<longleftrightarrow> c = CHR ''=''"

text \<open>The two groups of the grammar: \<open>[A-Z_]+\<close> and \<open>[A-Za-z0-9_-]+=*\<close>.\<close>

definition is_entity_type :: "string \<Rightarrow> bool" where
  "is_entity_type e \<longleftrightarrow> e \<noteq> [] \<and> list_all is_entity_char e"

definition is_token :: "string \<Rightarrow> bool" where
  "is_token t \<longleftrightarrow>
     takeWhile is_token_char t \<noteq> [] \<and> list_all is_pad_char (dropWhile is_token_char t)"

text \<open>
  The f-string of \<open>apply_encryption_replacements\<close>,
  \<^verbatim>\<open>f"{{{{ENC:{m.entity_type}:{ciphertext}}}}}"\<close>.
\<close>

definition safe_token :: "string \<Rightarrow> string \<Rightarrow> string" where
  "safe_token entity ciphertext = ''{{ENC:'' @ entity @ '':'' @ ciphertext @ ''}}''"

fun strip_prefix :: "string \<Rightarrow> string \<Rightarrow> string option" where
  "strip_prefix [] s = Some s"
| "strip_prefix (p # ps) [] = None"
| "strip_prefix (p # ps) (c # cs) = (if p = c then strip_prefix ps cs else None)"

text \<open>
  One attempt of the regular expression engine at the head of \<open>s\<close>: the two groups and
  what follows the match, or \<open>None\<close>. Each repetition is greedy, and the literal after
  it lies outside its character class (\<open>:\<close> after \<open>[A-Z_]+\<close>, \<open>=\<close> or \<open>}\<close> after
  \<open>[A-Za-z0-9_-]+\<close>, \<open>}\<close> after \<open>=*\<close>), so backtracking to a shorter repetition can
  never succeed and the greedy attempt is the engine's answer.
\<close>

definition match_at :: "string \<Rightarrow> (string \<times> string \<times> string) option" where
  "match_at s =
     (case strip_prefix ''{{ENC:'' s of
        None \<Rightarrow> None
      | Some s1 \<Rightarrow>
          (let entity = takeWhile is_entity_char s1; s2 = dropWhile is_entity_char s1
           in if entity = [] then None
              else (case strip_prefix '':'' s2 of
                      None \<Rightarrow> None
                    | Some s3 \<Rightarrow>
                        (let body = takeWhile is_token_char s3; s4 = dropWhile is_token_char s3
                         in if body = [] then None
                            else (let pad = takeWhile is_pad_char s4;
                                      s5 = dropWhile is_pad_char s4
                                  in (case strip_prefix ''}}'' s5 of
                                        None \<Rightarrow> None
                                      | Some rest \<Rightarrow> Some (entity, body @ pad, rest)))))))"

text \<open>\<open>match.group(0)\<close>: the part of \<open>s\<close> that the match consumed.\<close>

definition group0 :: "string \<Rightarrow> string \<Rightarrow> string" where
  "group0 s rest = take (length s - length rest) s"

lemma strip_prefix_Some: "strip_prefix p s = Some r \<Longrightarrow> s = p @ r"
  by (induction p s rule: strip_prefix.induct) (auto split: if_splits)

lemma strip_prefix_append: "strip_prefix p (p @ r) = Some r"
  by (induction p) auto

lemma takeWhile_stop:
  assumes "\<And>x. x \<in> set xs \<Longrightarrow> P x" "ys = [] \<or> \<not> P (hd ys)"
  shows "takeWhile P (xs @ ys) = xs"
  using assms by (cases ys) (simp_all add: takeWhile_append2)

lemma dropWhile_stop:
  assumes "\<And>x. x \<in> set xs \<Longrightarrow> P x" "ys = [] \<or> \<not> P (hd ys)"
  shows "dropWhile P (xs @ ys) = ys"
  using assms by (cases ys) (simp_all add: dropWhile_append2)

lemma match_at_Some:
  assumes "match_at s = Some (entity, token, rest)"
  shows "s = safe_token entity token @ rest \<and> is_entity_type entity \<and> is_token token"
proof -
  from assms obtain s1 s3 s6 where
    s1: "strip_prefix ''{{ENC:'' s = Some s1"
    and e: "entity = takeWhile is_entity_char s1" "entity \<noteq> []"
    and s3: "strip_prefix '':'' (dropWhile is_entity_char s1) = Some s3"
    and b: "takeWhile is_token_char s3 \<noteq> []"
    and t: "token = takeWhile is_token_char s3 @ takeWhile is_pad_char (dropWhile is_token_char s3)"
    and s6: "strip_prefix ''}}'' (dropWhile is_pad_char (dropWhile is_token_char s3)) = Some rest"
    unfolding match_at_def by (auto simp: Let_def split: option.splits if_splits)
  let ?body = "takeWhile is_token_char s3"
  let ?pad = "takeWhile is_pad_char (dropWhile is_token_char s3)"
  have "s = ''{{ENC:'' @ s1" using s1 by (rule strip_prefix_Some)
  moreover have "s1 = entity @ dropWhile is_entity_char s1" by (simp add: e(1))
  moreover have "dropWhile is_entity_char s1 = '':'' @ s3" using s3 by (rule strip_prefix_Some)
  moreover have "s3 = ?body @ ?pad @ dropWhile is_pad_char (dropWhile is_token_char s3)"
    by simp
  moreover have "dropWhile is_pad_char (dropWhile is_token_char s3) = ''}}'' @ rest"
    using s6 by (rule strip_prefix_Some)
  ultimately have "s = ''{{ENC:'' @ entity @ '':'' @ (?body @ ?pad) @ ''}}'' @ rest"
    by (metis append.assoc)
  then have eq: "s = safe_token entity token @ rest"
    by (simp add: safe_token_def t)
  have ent: "is_entity_type entity"
    using e by (auto simp: is_entity_type_def list_all_iff dest: set_takeWhileD)
  have pad_not_tok: "\<And>c. is_pad_char c \<Longrightarrow> \<not> is_token_char c"
    by (simp add: is_pad_char_def is_token_char_def)
  have tw: "takeWhile is_token_char token = ?body"
    unfolding t
  proof (rule takeWhile_stop)
    show "\<And>x. x \<in> set ?body \<Longrightarrow> is_token_char x" by (auto dest: set_takeWhileD)
    show "?pad = [] \<or> \<not> is_token_char (hd ?pad)"
    proof (cases ?pad)
      case Nil then show ?thesis by simp
    next
      case (Cons c cs)
      then have "c \<in> set ?pad" by simp
      then have "is_pad_char c" by (auto dest: set_takeWhileD)
      then show ?thesis using Cons pad_not_tok by simp
    qed
  qed
  have "dropWhile is_token_char token = ?pad"
    using tw takeWhile_dropWhile_id[of is_token_char token] t by (metis same_append_eq)
  then have tok: "is_token token"
    using b tw by (auto simp: is_token_def list_all_iff dest: set_takeWhileD)
  from eq ent tok show ?thesis by simp
qed

lemma match_at_shorter: "match_at s = Some (entity, token, rest) \<Longrightarrow> length rest < length s"
  by (drule match_at_Some) (simp add: safe_token_def)

text \<open>
  The scan that \<open>findall\<close> and \<open>sub\<close> share: try the pattern at the current position; on a
  match, report it and go on after it; otherwise move one character on. \<open>pos\<close> is the
  offset of \<open>s\<close> in the whole string.
\<close>

function scan_markers :: "nat \<Rightarrow> string \<Rightarrow> (string \<times> string \<times> nat \<times> nat) list" where
  "scan_markers pos [] = []"
| "scan_markers pos (c # cs) =
     (case match_at (c # cs) of
        None \<Rightarrow> scan_markers (Suc pos) cs
      | Some (entity, token, rest) \<Rightarrow>
          (entity, token, pos, pos + (length (c # cs) - length rest))
            # scan_markers (pos + (length (c # cs) - length rest)) rest)"
  by pat_completeness auto
termination
  by (relation "measure (\<lambda>(pos, s). length s)") (auto dest: match_at_shorter)

text \<open>\<open>findall\<close> returns the two groups of every match.\<close>

fun groups :: "string \<times> string \<times> nat \<times> nat \<Rightarrow> string \<times> string" where
  "groups (entity, token, b, e) = (entity, token)"

definition findall :: "string \<Rightarrow> (string \<times> string) list" where
  "findall s = map groups (scan_markers 0 s)"

section \<open>The cipher and the rewriting passes\<close>

text \<open>
  The cipher (Fernet, of the \<open>cryptography\<close> package) is outside the repository, so
  \<open>encrypt_text\<close> and \<open>decrypt_text\<close> are parameters. A Fernet token depends on the
  clock and on fresh random bytes: \<open>encrypt_text\<close> takes them as its first argument, and
  \<open>entropy i\<close> is what the \<open>i\<close>-th call of one run draws. \<open>decrypt_text\<close> raises on a
  wrong key or a damaged token: the value \<open>None\<close>.

  \<open>sorted(matches, key=lambda m: m.start, reverse=True)\<close> is a stable sort by
  descending \<open>start\<close>: matches with equal \<open>start\<close> keep the order of the input.
\<close>

definition matches_sorted :: "'m PiiMatch_scheme list \<Rightarrow> 'm PiiMatch_scheme list" where
  "matches_sorted matches = sort_key (\<lambda>m. - start m) matches"

definition splice :: "string \<Rightarrow> int \<Rightarrow> int \<Rightarrow> string \<Rightarrow> string" where
  "splice buf s e replacement = slice_to buf s @ replacement @ slice_from buf e"

fun encryption_loop ::
  "('r \<Rightarrow> string \<Rightarrow> 'k \<Rightarrow> string) \<Rightarrow> (nat \<Rightarrow> 'r) \<Rightarrow> nat \<Rightarrow> 'k
     \<Rightarrow> 'm PiiMatch_scheme list \<Rightarrow> string \<Rightarrow> string" where
  "encryption_loop encrypt_text entropy i key_b64 [] buf = buf"
| "encryption_loop encrypt_text entropy i key_b64 (m # ms) buf =
     (let ciphertext = encrypt_text (entropy i) (text_field m) key_b64;
          safe = safe_token (entity_type m) ciphertext
      in encryption_loop encrypt_text entropy (Suc i) key_b64 ms
           (splice buf (start m) (end_offset m) safe))"

definition apply_encryption_replacements ::
  "('r \<Rightarrow> string \<Rightarrow> 'k \<Rightarrow> string) \<Rightarrow> (nat \<Rightarrow> 'r)
     \<Rightarrow> string \<Rightarrow> 'm PiiMatch_scheme list \<Rightarrow> 'k \<Rightarrow> string" where
  "apply_encryption_replacements encrypt_text entropy md_text matches key_b64 =
     encryption_loop encrypt_text entropy 0 key_b64 (matches_sorted matches) md_text"

text \<open>\<open>str\<close> of a non-negative integer, as the f-string prints \<open>hash_suffix\<close>.\<close>

fun str_nat :: "nat \<Rightarrow> string" where
  "str_nat n =
     (if n < 10 then [''0123456789'' ! n]
      else str_nat (n div 10) @ [''0123456789'' ! (n mod 10)])"

text \<open>
  \<open>hash\<close> is Python's built-in on \<open>str\<close>, a parameter here: CPython salts it with a seed
  drawn when the process starts (unless \<open>PYTHONHASHSEED\<close> fixes the seed), so \<open>py_hash\<close>
  stands for the hash function of one process.
\<close>

definition placeholder :: "(string \<Rightarrow> int) \<Rightarrow> 'm PiiMatch_scheme \<Rightarrow> string" where
  "placeholder py_hash m =
     (let hash_suffix = \<bar>py_hash (text_field m)\<bar> mod 10000
      in ''['' @ entity_type m @ ''_'' @ str_nat (nat hash_suffix) @ '']'')"

fun anonymization_loop ::
  "(string \<Rightarrow> int) \<Rightarrow> 'm PiiMatch_scheme list \<Rightarrow> string \<Rightarrow> string" where
  "anonymization_loop py_hash [] buf = buf"
| "anonymization_loop py_hash (m # ms) buf =
     anonymization_loop py_hash ms
       (splice buf (start m) (end_offset m) (placeholder py_hash m))"

definition apply_anonymization_replacements ::
  "(string \<Rightarrow> int) \<Rightarrow> string \<Rightarrow> 'm PiiMatch_scheme list \<Rightarrow> string" where
  "apply_anonymization_replacements py_hash md_text matches =
     anonymization_loop py_hash (matches_sorted matches) md_text"

text \<open>
  \<open>decrypt_markers\<close>: \<open>ENCODED_PATTERN.sub(_replace, md_text)\<close>, where \<open>_replace\<close> returns
  the plaintext of group 2, or the whole match when \<open>decrypt_text\<close> raises.
\<close>

definition replace_marker ::
  "(string \<Rightarrow> 'k \<Rightarrow> string option) \<Rightarrow> 'k \<Rightarrow> string \<Rightarrow> string \<Rightarrow> string" where
  "replace_marker decrypt_text key_b64 token whole =
     (case decrypt_text token key_b64 of Some plain \<Rightarrow> plain | None \<Rightarrow> whole)"

function decrypt_markers ::
  "(string \<Rightarrow> 'k \<Rightarrow> string option) \<Rightarrow> string \<Rightarrow> 'k \<Rightarrow> string" where
  "decrypt_markers decrypt_text [] key_b64 = []"
| "decrypt_markers decrypt_text (c # cs) key_b64 =
     (case match_at (c # cs) of
        None \<Rightarrow> c # decrypt_markers decrypt_text cs key_b64
      | Some (entity, token, rest) \<Rightarrow>
          replace_marker decrypt_text key_b64 token (group0 (c # cs) rest)
            @ decrypt_markers decrypt_text rest key_b64)"
  by pat_completeness auto
termination
  by (relation "measure (\<lambda>(d, s, k). length s)") (auto dest: match_at_shorter)

section \<open>Marker-free text, and documents built from markers\<close>

text \<open>
  A text is marker free when the pattern matches at none of its positions: it has no
  substring of the marker grammar.
\<close>

fun marker_free :: "string \<Rightarrow> bool" where
  "marker_free [] = True"
| "marker_free (c # cs) \<longleftrightarrow> match_at (c # cs) = None \<and> marker_free cs"

text \<open>
  A document with embedded markers: plain text, then for each item \<open>(entity, token,
  plain)\<close> the encoded marker and the plain text after it. \<open>marker_positions\<close> lists
  where each marker of such a document stands, from offset \<open>pos\<close> on.
\<close>

fun embed_markers :: "string \<Rightarrow> (string \<times> string \<times> string) list \<Rightarrow> string" where
  "embed_markers plain [] = plain"
| "embed_markers plain ((entity, token, plain') # items) =
     plain @ safe_token entity token @ embed_markers plain' items"

fun marker_positions ::
  "nat \<Rightarrow> string \<Rightarrow> (string \<times> string \<times> string) list
     \<Rightarrow> (string \<times> string \<times> nat \<times> nat) list" where
  "marker_positions pos plain [] = []"
| "marker_positions pos plain ((entity, token, plain') # items) =
     (entity, token, pos + length plain,
        pos + length plain + length (safe_token entity token))
       # marker_positions (pos + length plain + length (safe_token entity token)) plain' items"

section \<open>The decrypt command\<close>

text \<open>
  The \<open>decrypt\<close> branch of \<open>main\<close>. Its inputs: the options \<open>--output\<close> and
  \<open>--outdir\<close>, whether the input path is a file, what \<open>ensure_fernet_key\<close> made of
  \<open>--key\<close> (\<open>None\<close> when it raised) and the text read from the input. Its effects:
  the exit status, the text written to the output path, and the field
  \<open>markers_decrypted\<close> of the audit event, the only count the command reports.
\<close>

record cli_args =
  output_arg :: "string option"
  outdir_arg :: "string option"

record run_result =
  exit_code :: int
  written :: "string option"

record decrypt_run = run_result +
  markers_decrypted :: "nat option"

text \<open>Python's truth value of an optional string argument.\<close>

fun given :: "string option \<Rightarrow> bool" where
  "given None = False"
| "given (Some s) \<longleftrightarrow> s \<noteq> []"

definition main_decrypt ::
  "(string \<Rightarrow> 'k \<Rightarrow> string option) \<Rightarrow> cli_args \<Rightarrow> bool \<Rightarrow> 'k option \<Rightarrow> string
     \<Rightarrow> decrypt_run" where
  "main_decrypt decrypt_text args input_is_file key_result md_text =
     (if given (output_arg args) \<and> given (outdir_arg args)
      then \<lparr>exit_code = 1, written = None, markers_decrypted = None\<rparr>
      else if \<not> input_is_file
      then \<lparr>exit_code = 1, written = None, markers_decrypted = None\<rparr>
      else (case key_result of
              None \<Rightarrow> \<lparr>exit_code = 1, written = None, markers_decrypted = None\<rparr>
            | Some key_bytes \<Rightarrow>
                (let encrypted_markers = length (findall md_text);
                     decrypted_text = decrypt_markers decrypt_text md_text key_bytes
                 in \<lparr>exit_code = 0, written = Some decrypted_text,
                      markers_decrypted = Some encrypted_markers\<rparr>)))"

text \<open>
  The number of per-marker failures of a decryption pass, in the words of the
  specification: the markers of the document whose token the cipher rejects.
\<close>

definition failed_markers :: "(string \<Rightarrow> 'k \<Rightarrow> string option) \<Rightarrow> string \<Rightarrow> 'k \<Rightarrow> nat" where
  "failed_markers decrypt_text md_text key_b64 =
     length (filter (\<lambda>(entity, token, b, e). decrypt_text token key_b64 = None)
               (scan_markers 0 md_text))"

section \<open>A small cipher for concrete instances\<close>

text \<open>
  The theorems below hold for every cipher. To instantiate them at concrete inputs, this
  cipher writes the key, an underscore and the plaintext in hexadecimal; it decrypts a
  token that starts with the key and is well-formed hexadecimal, and rejects any other.
\<close>

definition hex_char :: "char \<Rightarrow> string" where
  "hex_char c =
     [''0123456789abcdef'' ! (of_char c div 16), ''0123456789abcdef'' ! (of_char c mod 16)]"

definition hex_val :: "char \<Rightarrow> nat option" where
  "hex_val c = map_of (zip ''0123456789abcdef'' [0..<16]) c"

fun unhex :: "string \<Rightarrow> string option" where
  "unhex [] = Some []"
| "unhex [a] = None"
| "unhex (a # b # cs) =
     (case (hex_val a, hex_val b, unhex cs) of
        (Some h, Some l, Some r) \<Rightarrow> Some (char_of (16 * h + l) # r)
      | _ \<Rightarrow> None)"

definition toy_encrypt :: "nat \<Rightarrow> string \<Rightarrow> string \<Rightarrow> string" where
  "toy_encrypt r p k = k @ ''_'' @ concat (map hex_char p)"

definition toy_decrypt :: "string \<Rightarrow> string \<Rightarrow> string option" where
  "toy_decrypt t k = (case strip_prefix (k @ ''_'') t of None \<Rightarrow> None | Some h \<Rightarrow> unhex h)"

section \<open>The detector and the encrypt command\<close>

text \<open>
  The detector (Presidio, on spaCy) is outside the repository. A call into it returns,
  raises an exception that \<open>except Exception\<close> catches, or raises one that it does not
  catch (\<open>SystemExit\<close> from a model download, \<open>KeyboardInterrupt\<close>).
\<close>

datatype 'a attempt = Ok 'a | Raised | Exited

text \<open>
  A \<open>RecognizerResult\<close> has the fields that \<open>analyze_pii\<close> reads; its score may be
  \<open>None\<close>. An analyzer is what \<open>analyzer.analyze(text=..., language="en",
  entities=...)\<close> does. The environment says whether the package can be imported and,
  for each of the three engines that \<open>build_analyzer\<close> tries, what its construction
  does.
\<close>

record RecognizerResult =
  r_start :: int
  r_end :: int
  r_entity_type :: string
  r_score :: "real option"

type_synonym analyzer = "string \<Rightarrow> string list option \<Rightarrow> RecognizerResult list attempt"

record detector_env =
  presidio_importable :: bool
  engine_lg :: "analyzer attempt"
  engine_sm :: "analyzer attempt"
  engine_default :: "analyzer attempt"

text \<open>
  The exceptions that leave the encrypt command: a failed import, the \<open>RuntimeError\<close> of
  \<open>build_analyzer\<close> or of the PDF conversion, an exception of \<open>analyzer.analyze\<close> on the
  document, an exception that is no \<open>Exception\<close> (\<open>SystemExit\<close> stands for them), the
  \<open>ValueError\<close> of \<open>ensure_fernet_key\<close> or of \<open>Fernet(key)\<close>, and the \<open>IndexError\<close> of
  \<open>offset_to_line_col\<close>.
\<close>

datatype exc = ImportError | RuntimeError | DetectorError | SystemExit | ValueError | IndexError

text \<open>
  One \<open>try\<close> block of \<open>build_analyzer\<close>: construct the engine, then warm it up with
  \<open>analyzer.analyze(text="warm up", language="en")\<close>. The block yields the analyzer, or
  raises what the construction or the warm-up raised.
\<close>

definition try_engine :: "analyzer attempt \<Rightarrow> analyzer attempt" where
  "try_engine candidate =
     (case candidate of
        Ok a \<Rightarrow> (case a ''warm up'' None of
                   Ok results \<Rightarrow> Ok a
                 | Raised \<Rightarrow> Raised
                 | Exited \<Rightarrow> Exited)
      | Raised \<Rightarrow> Raised
      | Exited \<Rightarrow> Exited)"

text \<open>
  \<open>build_analyzer\<close>: the import, then the loop over the two spaCy models, whose
  \<open>except Exception: continue\<close> goes on to the next model, then the default engine,
  whose \<open>except Exception\<close> raises \<open>RuntimeError\<close>. An exception that is no
  \<open>Exception\<close> leaves the function at once.
\<close>

definition build_analyzer :: "detector_env \<Rightarrow> exc + analyzer" where
  "build_analyzer env =
     (if \<not> presidio_importable env then Inl ImportError
      else (case try_engine (engine_lg env) of
              Ok a \<Rightarrow> Inr a
            | Exited \<Rightarrow> Inl SystemExit
            | Raised \<Rightarrow>
                (case try_engine (engine_sm env) of
                   Ok a \<Rightarrow> Inr a
                 | Exited \<Rightarrow> Inl SystemExit
                 | Raised \<Rightarrow>
                     (case try_engine (engine_default env) of
                        Ok a \<Rightarrow> Inr a
                      | Exited \<Rightarrow> Inl SystemExit
                      | Raised \<Rightarrow> Inl RuntimeError))))"

text \<open>The body of the loop of \<open>analyze_pii\<close>; \<open>r.score or 0.0\<close> is 0 for a missing score.\<close>

definition to_match :: "string \<Rightarrow> int list \<Rightarrow> RecognizerResult \<Rightarrow> exc + PiiMatch" where
  "to_match md_text line_starts r =
     (let snippet = slice md_text (r_start r) (r_end r)
      in (case offset_to_line_col (r_start r) line_starts of
            None \<Rightarrow> Inl IndexError
          | Some (line_no, col_no) \<Rightarrow>
              Inr \<lparr>start = r_start r, end_offset = r_end r, entity_type = r_entity_type r,
                   score = (case r_score r of None \<Rightarrow> 0 | Some s \<Rightarrow> s),
                   text_field = snippet, line = line_no, column = col_no\<rparr>))"

fun to_matches :: "string \<Rightarrow> int list \<Rightarrow> RecognizerResult list \<Rightarrow> exc + PiiMatch list" where
  "to_matches md_text line_starts [] = Inr []"
| "to_matches md_text line_starts (r # rs) =
     (case to_match md_text line_starts r of
        Inl e \<Rightarrow> Inl e
      | Inr m \<Rightarrow>
          (case to_matches md_text line_starts rs of
             Inl e \<Rightarrow> Inl e
           | Inr ms \<Rightarrow> Inr (m # ms)))"

text \<open>
  \<open>analyze_pii\<close>: its own import of the package, \<open>build_analyzer\<close>, the call of the
  analyzer on the document, and the loop over the results. Nothing is caught.
\<close>

definition analyze_pii ::
  "detector_env \<Rightarrow> string \<Rightarrow> string list option \<Rightarrow> exc + PiiMatch list" where
  "analyze_pii env md_text entities =
     (if \<not> presidio_importable env then Inl ImportError
      else (case build_analyzer env of
              Inl e \<Rightarrow> Inl e
            | Inr a \<Rightarrow>
                (case a md_text entities of
                   Raised \<Rightarrow> Inl DetectorError
                 | Exited \<Rightarrow> Inl SystemExit
                 | Ok results \<Rightarrow>
                     to_matches md_text (calculate_line_col_map md_text) results)))"

text \<open>
  The input of the encrypt command is a Markdown file with its text, or a PDF file with
  the text that \<open>convert_pdf_to_md\<close> extracts from it (\<open>None\<close> when no backend yields
  text and it raises \<open>RuntimeError\<close>). The command writes to two places: the file
  \<open><outdir>/<base>.md\<close>, which is where the PDF conversion puts its Markdown and where
  the result goes by default, and the path of \<open>--output\<close> when that is given.
\<close>

datatype input_doc = Markdown string | Pdf "string option"

datatype out_path = DefaultMd | OutputArg

text \<open>
  \<open>_convert_pdf_if_needed\<close>, then the \<open>read\<close> of the working input: the files written
  and the text to analyse.
\<close>

fun convert_if_needed :: "input_doc \<Rightarrow> exc + ((out_path \<times> string) list \<times> string)" where
  "convert_if_needed (Markdown md_text) = Inr ([], md_text)"
| "convert_if_needed (Pdf None) = Inl RuntimeError"
| "convert_if_needed (Pdf (Some md_text)) = Inr ([(DefaultMd, md_text)], md_text)"

datatype mode = Encrypt | Anonymize

text \<open>
  The rewrite as \<open>main\<close> calls it. Every call of \<open>encrypt_text\<close> builds \<open>Fernet(key_b64)\<close>
  first, which raises \<open>ValueError\<close> unless the key holds 32 bytes, a condition that
  \<open>ensure_fernet_key\<close> does not check: \<open>fernet_accepts\<close> says whether the cipher takes
  the key. The loop makes its first call at the first match, so with no match nothing is
  raised. Anonymize mode has no key.
\<close>

definition rewrite ::
  "('k \<Rightarrow> bool) \<Rightarrow> ('r \<Rightarrow> string \<Rightarrow> 'k \<Rightarrow> string) \<Rightarrow> (nat \<Rightarrow> 'r) \<Rightarrow> (string \<Rightarrow> int)
     \<Rightarrow> mode \<Rightarrow> 'k option \<Rightarrow> string \<Rightarrow> PiiMatch list \<Rightarrow> exc + string" where
  "rewrite fernet_accepts encrypt_text entropy py_hash mode_arg key_result md_text matches =
     (case mode_arg of
        Anonymize \<Rightarrow> Inr (apply_anonymization_replacements py_hash md_text matches)
      | Encrypt \<Rightarrow>
          (case key_result of
             None \<Rightarrow> Inl ValueError
           | Some key_b64 \<Rightarrow>
               if matches \<noteq> [] \<and> \<not> fernet_accepts key_b64 then Inl ValueError
               else Inr (apply_encryption_replacements encrypt_text entropy md_text
                           matches key_b64)))"

text \<open>
  The \<open>encrypt\<close> branch of \<open>main\<close>: the argument checks, the PDF conversion, the key (in
  encrypt mode only; \<open>key_result\<close> is \<open>None\<close> when \<open>ensure_fernet_key\<close> raises), the
  analysis, the rewrite of the chosen mode, and the two writes. No exception is caught:
  one that is raised ends the command there. A run records the files written, in order,
  the matches written to the report, and the uncaught exception or the exit status.
\<close>

record encrypt_run =
  writes :: "(out_path \<times> string) list"
  report :: "PiiMatch list option"
  status :: "exc + int"

definition main_encrypt ::
  "('k \<Rightarrow> bool) \<Rightarrow> ('r \<Rightarrow> string \<Rightarrow> 'k \<Rightarrow> string) \<Rightarrow> (nat \<Rightarrow> 'r) \<Rightarrow> (string \<Rightarrow> int)
     \<Rightarrow> detector_env \<Rightarrow> cli_args \<Rightarrow> mode \<Rightarrow> string list option \<Rightarrow> bool \<Rightarrow> 'k option
     \<Rightarrow> input_doc \<Rightarrow> encrypt_run" where
  "main_encrypt fernet_accepts encrypt_text entropy py_hash env args mode_arg entities
       input_is_file key_result doc =
     (if given (output_arg args) \<and> given (outdir_arg args)
      then \<lparr>writes = [], report = None, status = Inr 1\<rparr>
      else if \<not> input_is_file
      then \<lparr>writes = [], report = None, status = Inr 1\<rparr>
      else (case convert_if_needed doc of
              Inl e \<Rightarrow> \<lparr>writes = [], report = None, status = Inl e\<rparr>
            | Inr (converted, md_text) \<Rightarrow>
                if mode_arg = Encrypt \<and> key_result = None
                then \<lparr>writes = converted, report = None, status = Inl ValueError\<rparr>
                else (case analyze_pii env md_text entities of
                        Inl e \<Rightarrow> \<lparr>writes = converted, report = None, status = Inl e\<rparr>
                      | Inr matches \<Rightarrow>
                          (let out_md_path =
                                 (if given (output_arg args) then OutputArg else DefaultMd)
                           in (case rewrite fernet_accepts encrypt_text entropy py_hash
                                      mode_arg key_result md_text matches of
                                 Inl e \<Rightarrow>
                                   \<lparr>writes = converted, report = None, status = Inl e\<rparr>
                               | Inr processed_text \<Rightarrow>
                                   \<lparr>writes = converted @ [(out_md_path, processed_text)],
                                      report = Some matches, status = Inr 0\<rparr>)))))"

text \<open>
  When the detector can be used on a document, said of the environment alone: the
  package can be imported, and one of the three engines, in the order in which they are
  tried, can be built and warmed up, and returns on the document, every engine before it
  having raised an exception that is caught.
\<close>

definition engines :: "detector_env \<Rightarrow> analyzer attempt list" where
  "engines env = [engine_lg env, engine_sm env, engine_default env]"

definition engine_works :: "analyzer attempt \<Rightarrow> bool" where
  "engine_works candidate \<longleftrightarrow>
     (case candidate of
        Ok a \<Rightarrow> (case a ''warm up'' None of Ok results \<Rightarrow> True | Raised \<Rightarrow> False
                   | Exited \<Rightarrow> False)
      | Raised \<Rightarrow> False
      | Exited \<Rightarrow> False)"

definition engine_raises :: "analyzer attempt \<Rightarrow> bool" where
  "engine_raises candidate \<longleftrightarrow>
     (case candidate of
        Ok a \<Rightarrow> (case a ''warm up'' None of Ok results \<Rightarrow> False | Raised \<Rightarrow> True
                   | Exited \<Rightarrow> False)
      | Raised \<Rightarrow> True
      | Exited \<Rightarrow> False)"

definition engine_returns :: "analyzer attempt \<Rightarrow> string \<Rightarrow> string list option \<Rightarrow> bool" where
  "engine_returns candidate md_text entities \<longleftrightarrow>
     (case candidate of
        Ok a \<Rightarrow> (case a md_text entities of Ok results \<Rightarrow> True | Raised \<Rightarrow> False
                   | Exited \<Rightarrow> False)
      | Raised \<Rightarrow> False
      | Exited \<Rightarrow> False)"

definition detector_available :: "detector_env \<Rightarrow> string \<Rightarrow> string list option \<Rightarrow> bool" where
  "detector_available env md_text entities \<longleftrightarrow>
     presidio_importable env
     \<and> (\<exists>i < length (engines env).
           engine_works (engines env ! i)
           \<and> (\<forall>j < i. engine_raises (engines env ! j))
           \<and> engine_returns (engines env ! i) md_text entities)"

definition detector_unavailable :: "detector_env \<Rightarrow> string \<Rightarrow> string list option \<Rightarrow> bool" where
  "detector_unavailable env md_text entities \<longleftrightarrow> \<not> detector_available env md_text entities"

section \<open>Valid and non-overlapping match sets\<close>

text \<open>
  The invariant of a match on the text it was detected in: the offsets are in range and in
  order, and the captured text is the live substring \<open>md_text[start:end]\<close>.
\<close>

definition valid_match :: "string \<Rightarrow> 'm PiiMatch_scheme \<Rightarrow> bool" where
  "valid_match md_text m \<longleftrightarrow>
     0 \<le> start m \<and> start m \<le> end_offset m \<and> end_offset m \<le> int (length md_text)
     \<and> text_field m = slice md_text (start m) (end_offset m)"

text \<open>
  Two half-open intervals do not intersect when one ends at or before the start of the
  other; a match list is non-overlapping when that holds for every two of its positions.
\<close>

definition disjoint_spans :: "'m PiiMatch_scheme \<Rightarrow> 'm PiiMatch_scheme \<Rightarrow> bool" where
  "disjoint_spans a b \<longleftrightarrow> end_offset a \<le> start b \<or> end_offset b \<le> start a"

fun non_overlapping :: "'m PiiMatch_scheme list \<Rightarrow> bool" where
  "non_overlapping [] = True"
| "non_overlapping (m # ms) \<longleftrightarrow> (\<forall>m' \<in> set ms. disjoint_spans m m') \<and> non_overlapping ms"

text \<open>
  The strings that one run of \<open>apply_encryption_replacements\<close> inserts, in the order of
  its loop: the marker of each match, its ciphertext drawn with the entropy of that call.
\<close>

fun encryption_subs ::
  "('r \<Rightarrow> string \<Rightarrow> 'k \<Rightarrow> string) \<Rightarrow> (nat \<Rightarrow> 'r) \<Rightarrow> nat \<Rightarrow> 'k
     \<Rightarrow> 'm PiiMatch_scheme list \<Rightarrow> string list" where
  "encryption_subs encrypt_text entropy i key_b64 [] = []"
| "encryption_subs encrypt_text entropy i key_b64 (m # ms) =
     safe_token (entity_type m) (encrypt_text (entropy i) (text_field m) key_b64)
       # encryption_subs encrypt_text entropy (Suc i) key_b64 ms"

text \<open>Both loops splice one substitution per match into the buffer, in list order.\<close>

fun splice_all :: "('m PiiMatch_scheme \<times> string) list \<Rightarrow> string \<Rightarrow> string" where
  "splice_all [] buf = buf"
| "splice_all ((m, r) # ps) buf = splice_all ps (splice buf (start m) (end_offset m) r)"

text \<open>
  A text has no live marker for a key when the cipher rejects, with that key, the token
  of every marker the text contains.
\<close>

fun no_live_marker :: "(string \<Rightarrow> 'k \<Rightarrow> string option) \<Rightarrow> 'k \<Rightarrow> string \<Rightarrow> bool" where
  "no_live_marker decrypt_text key_b64 [] = True"
| "no_live_marker decrypt_text key_b64 (c # cs) \<longleftrightarrow>
     (case match_at (c # cs) of
        None \<Rightarrow> True
      | Some (entity, token, rest) \<Rightarrow> decrypt_text token key_b64 = None)
     \<and> no_live_marker decrypt_text key_b64 cs"

section \<open>A concrete document\<close>

text \<open>
  A text with two detected spans, listed as a detector may return them (not in offset
  order), used to instantiate the theorems.
\<close>

definition example_text :: string where
  "example_text = ''Hi bob, call 555''"

definition example_matches :: "PiiMatch list" where
  "example_matches =
     [\<lparr>start = 3, end_offset = 6, entity_type = ''PERSON'', score = 0.85,
        text_field = ''bob'', line = 1, column = 4\<rparr>,
      \<lparr>start = 13, end_offset = 16, entity_type = ''PHONE_NUMBER'', score = 0.75,
        text_field = ''555'', line = 1, column = 14\<rparr>]"

text \<open>
  A text that already holds a marker of the key \<open>K1\<close> of the small cipher (the plaintext
  \<open>j\<close>), with one detected span after it; and a text with an empty span at the start of a
  non-empty one.
\<close>

definition marked_text :: string where
  "marked_text = ''{{ENC:A:K1_6a}} bob''"

definition marked_matches :: "PiiMatch list" where
  "marked_matches =
     [\<lparr>start = 16, end_offset = 19, entity_type = ''PERSON'', score = 0.85,
        text_field = ''bob'', line = 1, column = 17\<rparr>]"

definition empty_span :: PiiMatch where
  "empty_span = \<lparr>start = 5, end_offset = 5, entity_type = ''A'', score = 0.5,
     text_field = '''', line = 1, column = 6\<rparr>"

definition tail_span :: PiiMatch where
  "tail_span = \<lparr>start = 5, end_offset = 8, entity_type = ''B'', score = 0.5,
     text_field = ''fgh'', line = 1, column = 6\<rparr>"

text \<open>
  Stub detectors: one that returns the two spans of the concrete document, one that
  returns two spans that intersect, and one that raises on every call; and environments
  in which only the small spaCy model yields an engine.
\<close>

definition example_analyzer :: analyzer where
  "example_analyzer t entities =
     Ok [\<lparr>r_start = 3, r_end = 6, r_entity_type = ''PERSON'', r_score = Some 0.85\<rparr>,
         \<lparr>r_start = 13, r_end = 16, r_entity_type = ''PHONE_NUMBER'', r_score = None\<rparr>]"


definition failing_analyzer :: analyzer where
  "failing_analyzer t entities = Raised"

definition example_env :: detector_env where
  "example_env = \<lparr>presidio_importable = True, engine_lg = Raised,
     engine_sm = Ok example_analyzer, engine_default = Raised\<rparr>"


definition broken_env :: detector_env where
  "broken_env = \<lparr>presidio_importable = True, engine_lg = Raised,
     engine_sm = Ok failing_analyzer, engine_default = Raised\<rparr>"

definition no_presidio_env :: detector_env where
  "no_presidio_env = \<lparr>presidio_importable = False, engine_lg = Ok example_analyzer,
     engine_sm = Ok example_analyzer, engine_default = Ok example_analyzer\<rparr>"

definition no_args :: cli_args where
  "no_args = \<lparr>output_arg = None, outdir_arg = None\<rparr>"
section \<open>Span indexer: offset resolution\<close>

lemma newline_ends_bounds: "x \<in> set (newline_ends i cs) \<Longrightarrow> int i < x \<and> x \<le> int i + int (length cs)"
  by (induction cs arbitrary: i) (fastforce split: if_splits)+

lemma newline_ends_sorted: "sorted_wrt (<) (newline_ends i cs)"
proof (induction cs arbitrary: i)
  case Nil show ?case by simp
next
  case (Cons c cs)
  have "\<And>x. x \<in> set (newline_ends (Suc i) cs) \<Longrightarrow> int i + 1 < x"
    using newline_ends_bounds[of _ "Suc i" cs] by fastforce
  with Cons show ?case by auto
qed

lemma line_starts_sorted: "sorted_wrt (<) (calculate_line_col_map md_text)"
  using newline_ends_sorted[of 0 md_text] newline_ends_bounds[of _ 0 md_text]
  by (auto simp: calculate_line_col_map_def)

lemma scan_line_starts_takeWhile:
  "scan_line_starts offset li i ls =
     (if takeWhile (\<lambda>s. s \<le> offset) ls = [] then li
      else i + length (takeWhile (\<lambda>s. s \<le> offset) ls) - 1)"
  by (induction ls arbitrary: li i) auto

lemma newline_ends_mem: "k < length cs \<Longrightarrow> cs ! k = newline \<Longrightarrow> int i + int k + 1 \<in> set (newline_ends i cs)"
proof (induction cs arbitrary: i k)
  case Nil then show ?case by simp
next
  case (Cons c cs)
  show ?case
  proof (cases k)
    case 0 with Cons.prems show ?thesis by simp
  next
    case (Suc k')
    with Cons.prems have "int (Suc i) + int k' + 1 \<in> set (newline_ends (Suc i) cs)"
      by (intro Cons.IH) auto
    with Suc show ?thesis by (auto split: if_splits)
  qed
qed


lemma strict_sorted_nth_le:
  fixes ls :: "int list"
  assumes "sorted_wrt (<) ls" "i \<le> j" "j < length ls"
  shows "ls ! i \<le> ls ! j"
proof (cases "i = j")
  case True then show ?thesis by simp
next
  case False
  with assms(2) have "i < j" by simp
  then have "ls ! i < ls ! j" using assms(1,3) by (simp add: sorted_wrt_iff_nth_less)
  then show ?thesis by simp
qed

lemma greatest_index_takeWhile:
  fixes ls :: "int list"
  assumes "sorted_wrt (<) ls" "j < length ls" "ls ! j \<le> offset"
    and "\<And>i. j < i \<Longrightarrow> i < length ls \<Longrightarrow> offset < ls ! i"
  shows "takeWhile (\<lambda>s. s \<le> offset) ls = take (Suc j) ls"
proof (rule takeWhile_eq_take_P_nth)
  fix i assume "i < Suc j" "i < length ls"
  then have "ls ! i \<le> ls ! j"
    using assms(1,2) by (intro strict_sorted_nth_le) auto
  with assms(3) show "ls ! i \<le> offset" by simp
next
  assume "Suc j < length ls"
  then show "\<not> ls ! Suc j \<le> offset" using assms(4)[of "Suc j"] by simp
qed

lemma offset_to_line_col_greatest:
  fixes ls :: "int list"
  assumes "sorted_wrt (<) ls" "j < length ls" "ls ! j \<le> offset"
    and "\<And>i. j < i \<Longrightarrow> i < length ls \<Longrightarrow> offset < ls ! i"
  shows "offset_to_line_col offset ls = Some (int j + 1, offset - ls ! j + 1)"
proof -
  have "takeWhile (\<lambda>s. s \<le> offset) ls = take (Suc j) ls"
    using assms by (rule greatest_index_takeWhile)
  then have "scan_line_starts offset 0 0 ls = j"
    using assms(2) by (auto simp: scan_line_starts_takeWhile)
  then show ?thesis using assms(2) by (simp add: offset_to_line_col_def)
qed

lemma greatest_index_exists:
  fixes ls :: "int list"
  assumes "sorted_wrt (<) ls" "ls \<noteq> []" "hd ls \<le> offset"
  shows "\<exists>j<length ls. ls ! j \<le> offset \<and> (\<forall>i. j < i \<and> i < length ls \<longrightarrow> offset < ls ! i)"
proof -
  let ?T = "takeWhile (\<lambda>s. s \<le> offset) ls"
  have ne: "?T \<noteq> []" using assms(2,3) by (cases ls) auto
  define j where "j = length ?T - 1"
  have jT: "j < length ?T" using ne by (simp add: j_def)
  have jl: "j < length ls" using jT length_takeWhile_le[of "\<lambda>s. s \<le> offset" ls] by linarith
  have "?T ! j \<in> set ?T" using jT by simp
  then have "?T ! j \<le> offset" by (auto dest: set_takeWhileD)
  then have le: "ls ! j \<le> offset" using jT by (simp add: takeWhile_nth)
  have gt: "offset < ls ! i" if "j < i" "i < length ls" for i
  proof -
    have len: "length ?T \<le> i" using that(1) by (simp add: j_def)
    with that(2) have "length ?T < length ls" by simp
    then have "\<not> ls ! length ?T \<le> offset" by (rule nth_length_takeWhile)
    moreover have "ls ! length ?T \<le> ls ! i"
      using assms(1) len that(2) by (rule strict_sorted_nth_le)
    ultimately show ?thesis by simp
  qed
  from jl le gt show ?thesis by blast
qed

text \<open>
  Claim C6. For every text and every offset from 0 on (so for every offset in
  \<open>[0, length text]\<close>, end of text included), \<open>offset_to_line_col\<close> on the line index
  of the text returns a pair \<open>(line_no, col)\<close>, both counted from 1, where \<open>line_no\<close> is the greatest
  position in the index whose line start is at most the offset, and \<open>col\<close> is the offset
  minus that line start plus 1. Offset 0 resolves to \<open>(1, 1)\<close>, and the offset just
  after a newline resolves to column 1 of the line after the newline's own.
\<close>

theorem offset_resolution:
  "(0 \<le> offset \<longrightarrow>
     (\<exists>line_no col. offset_to_line_col offset (calculate_line_col_map md_text) = Some (line_no, col)
        \<and> 1 \<le> line_no \<and> line_no \<le> int (length (calculate_line_col_map md_text))
        \<and> calculate_line_col_map md_text ! nat (line_no - 1) \<le> offset
        \<and> (\<forall>i. nat (line_no - 1) < i \<and> i < length (calculate_line_col_map md_text)
              \<longrightarrow> offset < calculate_line_col_map md_text ! i)
        \<and> col = offset - calculate_line_col_map md_text ! nat (line_no - 1) + 1))
   \<and> offset_to_line_col 0 (calculate_line_col_map md_text) = Some (1, 1)
   \<and> (\<forall>k line_no col. k < length md_text \<and> md_text ! k = newline
          \<and> offset_to_line_col (int k) (calculate_line_col_map md_text) = Some (line_no, col)
        \<longrightarrow> offset_to_line_col (int k + 1) (calculate_line_col_map md_text) = Some (line_no + 1, 1))"
proof -
  let ?ls = "calculate_line_col_map md_text"
  have srt: "sorted_wrt (<) ?ls" by (rule line_starts_sorted)
  have ne: "?ls \<noteq> []" and hd0: "hd ?ls = 0" by (simp_all add: calculate_line_col_map_def)
  have general: "\<exists>j<length ?ls. ?ls ! j \<le> off \<and> (\<forall>i. j < i \<and> i < length ?ls \<longrightarrow> off < ?ls ! i)
       \<and> offset_to_line_col off ?ls = Some (int j + 1, off - ?ls ! j + 1)"
    if off: "0 \<le> off" for off
  proof -
    obtain j where j: "j < length ?ls" "?ls ! j \<le> off"
      "\<forall>i. j < i \<and> i < length ?ls \<longrightarrow> off < ?ls ! i"
      using greatest_index_exists[OF srt ne, of off] off hd0 by auto
    then have "offset_to_line_col off ?ls = Some (int j + 1, off - ?ls ! j + 1)"
      by (intro offset_to_line_col_greatest[OF srt]) auto
    with j show ?thesis by blast
  qed
  have part1: "0 \<le> offset \<longrightarrow>
     (\<exists>line_no col. offset_to_line_col offset ?ls = Some (line_no, col)
        \<and> 1 \<le> line_no \<and> line_no \<le> int (length ?ls) \<and> ?ls ! nat (line_no - 1) \<le> offset
        \<and> (\<forall>i. nat (line_no - 1) < i \<and> i < length ?ls \<longrightarrow> offset < ?ls ! i)
        \<and> col = offset - ?ls ! nat (line_no - 1) + 1)"
  proof
    assume "0 \<le> offset"
    from general[OF this] obtain j where j: "j < length ?ls" "?ls ! j \<le> offset"
      "\<forall>i. j < i \<and> i < length ?ls \<longrightarrow> offset < ?ls ! i"
      "offset_to_line_col offset ?ls = Some (int j + 1, offset - ?ls ! j + 1)" by blast
    show "\<exists>line_no col. offset_to_line_col offset ?ls = Some (line_no, col)
        \<and> 1 \<le> line_no \<and> line_no \<le> int (length ?ls) \<and> ?ls ! nat (line_no - 1) \<le> offset
        \<and> (\<forall>i. nat (line_no - 1) < i \<and> i < length ?ls \<longrightarrow> offset < ?ls ! i)
        \<and> col = offset - ?ls ! nat (line_no - 1) + 1"
      using j by (intro exI[of _ "int j + 1"] exI[of _ "offset - ?ls ! j + 1"]) simp
  qed
  have part2: "offset_to_line_col 0 ?ls = Some (1, 1)"
  proof -
    have "offset_to_line_col 0 ?ls = Some (int 0 + 1, 0 - ?ls ! 0 + 1)"
    proof (rule offset_to_line_col_greatest[OF srt])
      show "0 < length ?ls" using ne by simp
      show "?ls ! 0 \<le> 0" by (simp add: calculate_line_col_map_def)
      fix i assume "0 < i" "i < length ?ls"
      then have "?ls ! 0 < ?ls ! i" using srt by (simp add: sorted_wrt_iff_nth_less)
      then show "0 < ?ls ! i" by (simp add: calculate_line_col_map_def)
    qed
    then show ?thesis by (simp add: calculate_line_col_map_def)
  qed
  have part3: "offset_to_line_col (int k + 1) ?ls = Some (line_no + 1, 1)"
    if k: "k < length md_text" "md_text ! k = newline"
      and res: "offset_to_line_col (int k) ?ls = Some (line_no, col)" for k line_no col
  proof -
    have "int k + 1 \<in> set ?ls"
      using newline_ends_mem[OF k, of 0] by (simp add: calculate_line_col_map_def)
    then obtain p where p: "p < length ?ls" "?ls ! p = int k + 1"
      by (auto simp: in_set_conv_nth)
    have p0: "p \<noteq> 0" using p(2) by (cases p) (auto simp: calculate_line_col_map_def)
    have after: "offset_to_line_col (int k + 1) ?ls = Some (int p + 1, (int k + 1) - ?ls ! p + 1)"
    proof (rule offset_to_line_col_greatest[OF srt p(1)])
      show "?ls ! p \<le> int k + 1" using p(2) by simp
      fix i assume "p < i" "i < length ?ls"
      then have "?ls ! p < ?ls ! i" using srt by (simp add: sorted_wrt_iff_nth_less)
      then show "int k + 1 < ?ls ! i" using p(2) by simp
    qed
    have before: "offset_to_line_col (int k) ?ls = Some (int (p - 1) + 1, int k - ?ls ! (p - 1) + 1)"
    proof (rule offset_to_line_col_greatest[OF srt])
      show "p - 1 < length ?ls" using p(1) by simp
      have "?ls ! (p - 1) < ?ls ! p" using srt p(1) p0 by (simp add: sorted_wrt_iff_nth_less)
      then show "?ls ! (p - 1) \<le> int k" using p(2) by simp
      fix i assume i: "p - 1 < i" "i < length ?ls"
      then have "?ls ! p \<le> ?ls ! i"
        using srt by (intro strict_sorted_nth_le) auto
      then show "int k < ?ls ! i" using p(2) by simp
    qed
    from before res have "line_no = int (p - 1) + 1" by simp
    then have "line_no + 1 = int p + 1" using p0 by simp
    with after p(2) show ?thesis by simp
  qed
  from part1 part2 part3 show ?thesis by blast
qed

theorem offset_resolution_witness:
  "(0::int) \<le> 4
   \<and> offset_to_line_col 4 (calculate_line_col_map (''ab'' @ [newline] @ ''cd'' @ [newline])) = Some (2, 2)
   \<and> calculate_line_col_map (''ab'' @ [newline] @ ''cd'' @ [newline]) = [0, 3, 6]
   \<and> (2::nat) < length (''ab'' @ [newline] @ ''cd'' @ [newline])
   \<and> (''ab'' @ [newline] @ ''cd'' @ [newline]) ! 2 = newline
   \<and> offset_to_line_col (int 2) (calculate_line_col_map (''ab'' @ [newline] @ ''cd'' @ [newline])) = Some (1, 3)
   \<and> offset_to_line_col (int 2 + 1) (calculate_line_col_map (''ab'' @ [newline] @ ''cd'' @ [newline])) = Some (1 + 1, 1)"
  using offset_resolution [of 4 "''ab'' @ [newline] @ ''cd'' @ [newline]"]
  by (simp add: offset_to_line_col_def calculate_line_col_map_def newline_def)

section \<open>The pattern matcher and the grammar\<close>

lemma colon_not_entity: "\<not> is_entity_char CHR '':''"
  by (simp add: is_entity_char_def)

lemma pad_not_token: "is_pad_char c \<Longrightarrow> \<not> is_token_char c"
  by (simp add: is_pad_char_def is_token_char_def)

lemma brace_not_token: "\<not> is_token_char CHR ''}''"
  by (simp add: is_token_char_def)

lemma brace_not_pad: "\<not> is_pad_char CHR ''}''"
  by (simp add: is_pad_char_def)

lemma entity_char_not_open: "is_entity_char c \<Longrightarrow> c \<noteq> CHR ''{''"
  by (auto simp: is_entity_char_def)

lemma token_char_not_open: "is_token_char c \<Longrightarrow> c \<noteq> CHR ''{''"
  by (auto simp: is_token_char_def)

lemma pad_char_not_open: "is_pad_char c \<Longrightarrow> c \<noteq> CHR ''{''"
  by (auto simp: is_pad_char_def)

lemma is_token_chars:
  assumes "is_token t" "c \<in> set t"
  shows "is_token_char c \<or> is_pad_char c"
proof -
  have "set t = set (takeWhile is_token_char t) \<union> set (dropWhile is_token_char t)"
    by (metis set_append takeWhile_dropWhile_id)
  with assms show ?thesis
    by (auto simp: is_token_def list_all_iff dest: set_takeWhileD)
qed

lemma match_at_safe_token:
  assumes e: "is_entity_type entity" and t: "is_token token"
  shows "match_at (safe_token entity token @ rest) = Some (entity, token, rest)"
proof -
  let ?body = "takeWhile is_token_char token"
  let ?pad = "dropWhile is_token_char token"
  have ent_all: "\<And>x. x \<in> set entity \<Longrightarrow> is_entity_char x"
    using e by (simp add: is_entity_type_def list_all_iff)
  have pad_all: "\<And>x. x \<in> set ?pad \<Longrightarrow> is_pad_char x"
    using t by (simp add: is_token_def list_all_iff)
  have body_all: "\<And>x. x \<in> set ?body \<Longrightarrow> is_token_char x"
    by (auto dest: set_takeWhileD)
  let ?t2 = "CHR ''}'' # CHR ''}'' # rest"
  have s1: "strip_prefix ''{{ENC:'' (safe_token entity token @ rest)
              = Some (entity @ CHR '':'' # token @ ?t2)"
    by (simp add: safe_token_def)
  have tw1: "takeWhile is_entity_char (entity @ CHR '':'' # token @ ?t2) = entity"
    by (rule takeWhile_stop) (simp_all add: ent_all colon_not_entity)
  have dw1: "dropWhile is_entity_char (entity @ CHR '':'' # token @ ?t2)
               = CHR '':'' # token @ ?t2"
    by (rule dropWhile_stop) (simp_all add: ent_all colon_not_entity)
  have s2: "strip_prefix '':'' (CHR '':'' # token @ ?t2) = Some (token @ ?t2)"
    by simp
  have tok_split: "token @ ?t2 = ?body @ (?pad @ ?t2)" by simp
  have stop2: "?pad @ ?t2 = [] \<or> \<not> is_token_char (hd (?pad @ ?t2))"
  proof (cases ?pad)
    case Nil show ?thesis unfolding Nil by (simp add: brace_not_token)
  next
    case (Cons c cs)
    then have "c \<in> set ?pad" by simp
    then have "\<not> is_token_char c" by (intro pad_not_token pad_all)
    then show ?thesis unfolding Cons by simp
  qed
  have tw2: "takeWhile is_token_char (token @ ?t2) = ?body"
    unfolding tok_split using body_all stop2 by (rule takeWhile_stop)
  have dw2: "dropWhile is_token_char (token @ ?t2) = ?pad @ ?t2"
    unfolding tok_split using body_all stop2 by (rule dropWhile_stop)
  have tw3: "takeWhile is_pad_char (?pad @ ?t2) = ?pad"
    by (rule takeWhile_stop) (simp_all add: pad_all brace_not_pad)
  have dw3: "dropWhile is_pad_char (?pad @ ?t2) = ?t2"
    by (rule dropWhile_stop) (simp_all add: pad_all brace_not_pad)
  have s3: "strip_prefix ''}}'' ?t2 = Some rest" by simp
  have ne1: "entity \<noteq> []" using e by (simp add: is_entity_type_def)
  have ne2: "?body \<noteq> []" using t by (simp add: is_token_def)
  show ?thesis
    unfolding match_at_def s1 option.case Let_def tw1 dw1 s2 tw2 dw2 tw3 dw3 s3
    using ne1 ne2 by simp
qed

lemma match_at_append:
  assumes "match_at s = Some (entity, token, rest)"
  shows "match_at (s @ x) = Some (entity, token, rest @ x)"
proof -
  from match_at_Some[OF assms] have "s = safe_token entity token @ rest"
    and "is_entity_type entity" and "is_token token" by simp_all
  then show ?thesis using match_at_safe_token[of entity token "rest @ x"] by simp
qed

lemma marker_no_inner_brace:
  assumes "is_entity_type entity" "is_token token"
  shows "CHR ''{'' \<notin> set (drop 2 (safe_token entity token))"
proof -
  have "\<And>c. c \<in> set entity \<Longrightarrow> c \<noteq> CHR ''{''"
    using assms(1) by (auto simp: is_entity_type_def list_all_iff dest: entity_char_not_open)
  moreover have "\<And>c. c \<in> set token \<Longrightarrow> c \<noteq> CHR ''{''"
    using is_token_chars[OF assms(2)] by (auto dest: token_char_not_open pad_char_not_open)
  ultimately show ?thesis by (auto simp: safe_token_def)
qed

lemma marker_within_prefix:
  assumes eq: "pre @ CHR ''{'' # CHR ''{'' # x = m @ r"
    and pre: "pre \<noteq> []" and m: "CHR ''{'' \<notin> set (drop 2 m)"
  shows "length m \<le> length pre \<or> length m \<le> 2"
proof (rule ccontr)
  assume "\<not> ?thesis"
  then have lt: "length pre < length m" and m3: "2 < length m" by simp_all
  let ?n = "length pre"
  have n1: "1 \<le> ?n" using pre by (cases pre) simp_all
  define k where "k = max ?n 2"
  have k: "k < length m" "2 \<le> k" using lt m3 by (simp_all add: k_def)
  define j where "j = k - 2"
  have j: "k = 2 + j" "j < length (drop 2 m)" using k by (simp_all add: j_def)
  have "k = ?n \<or> k = Suc ?n" using n1 by (auto simp: k_def max_def)
  then have "(pre @ CHR ''{'' # CHR ''{'' # x) ! k = CHR ''{''"
    by (auto simp: nth_append)
  then have "m ! k = CHR ''{''" using eq k(1) by (simp add: nth_append)
  moreover have "drop 2 m ! j = m ! k" using j k by (simp add: j(1))
  moreover have "drop 2 m ! j \<in> set (drop 2 m)" using j(2) by (rule nth_mem)
  ultimately show False using m by simp
qed

lemma match_at_before_marker:
  assumes pre: "pre \<noteq> []"
  shows "match_at (pre @ CHR ''{'' # CHR ''{'' # x) =
           (case match_at pre of None \<Rightarrow> None
            | Some (entity, token, rest) \<Rightarrow> Some (entity, token, rest @ CHR ''{'' # CHR ''{'' # x))"
proof (cases "match_at pre")
  case (Some a)
  then obtain entity token rest where "match_at pre = Some (entity, token, rest)"
    by (cases a) auto
  then show ?thesis using match_at_append by simp
next
  case None
  have "match_at (pre @ CHR ''{'' # CHR ''{'' # x) = None"
  proof (rule ccontr)
    assume "match_at (pre @ CHR ''{'' # CHR ''{'' # x) \<noteq> None"
    then obtain entity token rest where
      s: "match_at (pre @ CHR ''{'' # CHR ''{'' # x) = Some (entity, token, rest)" by auto
    from match_at_Some[OF s] have eq: "pre @ CHR ''{'' # CHR ''{'' # x = safe_token entity token @ rest"
      and g: "is_entity_type entity" "is_token token" by simp_all
    have "length (safe_token entity token) \<le> length pre"
      using marker_within_prefix[OF eq pre marker_no_inner_brace[OF g]]
      by (auto simp: safe_token_def)
    then have "take (length (safe_token entity token)) pre = safe_token entity token"
      using arg_cong[OF eq, of "take (length (safe_token entity token))"] by simp
    then have "pre = safe_token entity token @ drop (length (safe_token entity token)) pre"
      by (metis append_take_drop_id)
    then have "match_at pre = Some (entity, token, drop (length (safe_token entity token)) pre)"
      using match_at_safe_token[OF g] by metis
    with None show False by simp
  qed
  with None show ?thesis by simp
qed

lemma scan_markers_unfold:
  "s \<noteq> [] \<Longrightarrow> scan_markers pos s =
     (case match_at s of
        None \<Rightarrow> scan_markers (Suc pos) (tl s)
      | Some (entity, token, rest) \<Rightarrow>
          (entity, token, pos, pos + (length s - length rest))
            # scan_markers (pos + (length s - length rest)) rest)"
  by (cases s) (simp_all split: option.split)

lemma decrypt_markers_unfold:
  "s \<noteq> [] \<Longrightarrow> decrypt_markers d s k =
     (case match_at s of
        None \<Rightarrow> hd s # decrypt_markers d (tl s) k
      | Some (entity, token, rest) \<Rightarrow>
          replace_marker d k token (group0 s rest) @ decrypt_markers d rest k)"
  by (cases s) (simp_all split: option.split)

lemma safe_token_open: "safe_token entity token = CHR ''{'' # CHR ''{'' # drop 2 (safe_token entity token)"
  by (simp add: safe_token_def)

lemma safe_token_nonempty: "safe_token entity token @ post \<noteq> []"
  by (simp add: safe_token_def)

lemma scan_markers_marker:
  assumes g: "is_entity_type entity" "is_token token"
  shows "scan_markers pos (pre @ safe_token entity token @ post) =
           scan_markers pos pre
           @ (entity, token, pos + length pre, pos + length pre + length (safe_token entity token))
             # scan_markers (pos + length pre + length (safe_token entity token)) post"
proof (induction pos pre rule: scan_markers.induct)
  case (1 pos)
  show ?case
    using scan_markers_unfold[OF safe_token_nonempty, of pos entity token post]
    by (simp add: match_at_safe_token[OF g])
next
  case (2 pos c cs)
  let ?M = "safe_token entity token"
  obtain y where M: "?M @ post = CHR ''{'' # CHR ''{'' # y"
    using safe_token_open[of entity token] by (metis append_Cons)
  have m: "match_at ((c # cs) @ ?M @ post) =
             (case match_at (c # cs) of None \<Rightarrow> None
              | Some (e, t, r) \<Rightarrow> Some (e, t, r @ ?M @ post))"
    unfolding M by (rule match_at_before_marker) simp
  show ?case
  proof (cases "match_at (c # cs)")
    case None
    with m have "match_at (c # cs @ ?M @ post) = None" by simp
    then show ?thesis using None "2.IH"(1)[OF None] by simp
  next
    case (Some a)
    obtain e t r where a: "a = (e, t, r)" by (cases a)
    from m Some a have m': "match_at (c # cs @ ?M @ post) = Some (e, t, r @ ?M @ post)" by simp
    have len: "length r < length (c # cs)" using Some a by (auto dest: match_at_shorter)
    have d: "length (c # cs @ ?M @ post) - length (r @ ?M @ post) = length (c # cs) - length r"
      using len by simp
    have IH: "scan_markers (pos + (length (c # cs) - length r)) (r @ ?M @ post) =
           scan_markers (pos + (length (c # cs) - length r)) r
           @ (entity, token, pos + (length (c # cs) - length r) + length r,
                pos + (length (c # cs) - length r) + length r + length ?M)
             # scan_markers (pos + (length (c # cs) - length r) + length r + length ?M) post"
      using "2.IH"(2)[OF Some[unfolded a] refl refl] .
    have p: "pos + (length (c # cs) - length r) + length r = pos + length (c # cs)"
      using len by simp
    show ?thesis
      using Some a m' IH d p by simp
  qed
qed

lemma group0_marker: "group0 (safe_token entity token @ rest) rest = safe_token entity token"
  by (simp add: group0_def)

lemma group0_append: "length r \<le> length s \<Longrightarrow> group0 (s @ x) (r @ x) = group0 s r"
  by (simp add: group0_def)

lemma decrypt_markers_marker:
  assumes g: "is_entity_type entity" "is_token token"
  shows "decrypt_markers d (pre @ safe_token entity token @ post) k =
           decrypt_markers d pre k
           @ replace_marker d k token (safe_token entity token)
           @ decrypt_markers d post k"
proof (induction d pre k rule: decrypt_markers.induct)
  case (1 d k)
  show ?case
    using decrypt_markers_unfold[OF safe_token_nonempty, of d entity token post k]
    by (simp add: match_at_safe_token[OF g] group0_marker)
next
  case (2 d c cs k)
  let ?M = "safe_token entity token"
  obtain y where M: "?M @ post = CHR ''{'' # CHR ''{'' # y"
    using safe_token_open[of entity token] by (metis append_Cons)
  have m: "match_at ((c # cs) @ ?M @ post) =
             (case match_at (c # cs) of None \<Rightarrow> None
              | Some (e, t, r) \<Rightarrow> Some (e, t, r @ ?M @ post))"
    unfolding M by (rule match_at_before_marker) simp
  show ?case
  proof (cases "match_at (c # cs)")
    case None
    with m have "match_at (c # cs @ ?M @ post) = None" by simp
    then show ?thesis using None "2.IH"(1)[OF None] by simp
  next
    case (Some a)
    obtain e t r where a: "a = (e, t, r)" by (cases a)
    from m Some a have m': "match_at (c # cs @ ?M @ post) = Some (e, t, r @ ?M @ post)" by simp
    have len: "length r < length (c # cs)" using Some a by (auto dest: match_at_shorter)
    have g0: "group0 (c # cs @ ?M @ post) (r @ ?M @ post) = group0 (c # cs) r"
      using group0_append[of r "c # cs" "?M @ post"] len by simp
    have IH: "decrypt_markers d (r @ ?M @ post) k =
           decrypt_markers d r k @ replace_marker d k token ?M @ decrypt_markers d post k"
      using "2.IH"(2)[OF Some[unfolded a] refl refl] .
    show ?thesis
      using Some a m' IH g0 by simp
  qed
qed

section \<open>Marker-free text and embedded markers\<close>

lemma marker_free_scan: "marker_free s \<Longrightarrow> scan_markers pos s = []"
  by (induction s arbitrary: pos) simp_all

lemma marker_free_decrypt: "marker_free s \<Longrightarrow> decrypt_markers d s k = s"
  by (induction s) simp_all

lemma scan_embed:
  assumes "marker_free plain"
    and "\<forall>(e, t, p) \<in> set items. is_entity_type e \<and> is_token t \<and> marker_free p"
  shows "scan_markers pos (embed_markers plain items) = marker_positions pos plain items"
  using assms
proof (induction items arbitrary: pos plain)
  case Nil
  then show ?case by (simp add: marker_free_scan)
next
  case (Cons item items)
  obtain e t p where item: "item = (e, t, p)" by (cases item)
  from Cons.prems item have g: "is_entity_type e" "is_token t" and p: "marker_free p"
    and rest: "\<forall>(e, t, p) \<in> set items. is_entity_type e \<and> is_token t \<and> marker_free p"
    by auto
  show ?case
    using Cons.IH[OF p rest] Cons.prems(1)
    by (simp add: item scan_markers_marker[OF g] marker_free_scan)
qed

lemma marker_positions_fst:
  "map groups (marker_positions pos plain items) = map (\<lambda>(e, t, p). (e, t)) items"
  by (induction items arbitrary: pos plain) auto

lemma marker_positions_lower:
  "(e, t, b, n) \<in> set (marker_positions pos plain items) \<Longrightarrow> pos \<le> b \<and> b < n"
proof (induction items arbitrary: pos plain)
  case Nil then show ?case by simp
next
  case (Cons item items)
  obtain e' t' p' where item: "item = (e', t', p')" by (cases item)
  from Cons.prems show ?case
    unfolding item
    by (auto simp: safe_token_def dest!: Cons.IH)
qed

lemma marker_positions_ordered:
  "sorted_wrt (\<lambda>(e1, t1, b1, n1) (e2, t2, b2, n2). n1 \<le> b2) (marker_positions pos plain items)"
proof (induction items arbitrary: pos plain)
  case Nil show ?case by simp
next
  case (Cons item items)
  obtain e' t' p' where item: "item = (e', t', p')" by (cases item)
  show ?case
    unfolding item using Cons.IH
    by (auto dest!: marker_positions_lower)
qed

lemma marker_positions_text:
  "(e, t, b, n) \<in> set (marker_positions pos plain items) \<Longrightarrow>
     take (n - b) (drop (b - pos) (embed_markers plain items)) = safe_token e t"
proof (induction items arbitrary: pos plain)
  case Nil then show ?case by simp
next
  case (Cons item items)
  obtain e' t' p' where item: "item = (e', t', p')" by (cases item)
  let ?q = "pos + length plain + length (safe_token e' t')"
  from Cons.prems item consider
    (here) "e = e'" "t = t'" "b = pos + length plain" "n = ?q"
    | (later) "(e, t, b, n) \<in> set (marker_positions ?q p' items)"
    by auto
  then show ?case
  proof cases
    case here
    then show ?thesis by (simp add: item)
  next
    case later
    from marker_positions_lower[OF later] have b: "?q \<le> b" by simp
    have "drop (b - pos) (embed_markers plain (item # items))
            = drop (b - ?q) (embed_markers p' items)"
      using b by (simp add: item)
    then show ?thesis using Cons.IH[OF later] by simp
  qed
qed

section \<open>Marker codec and decryption: the claims\<close>

lemma marker_free_suffix: "marker_free (pre @ s) \<Longrightarrow> marker_free s"
  by (induction pre) simp_all

lemma marker_free_iff:
  "marker_free s \<longleftrightarrow>
     (\<forall>pre entity token post. is_entity_type entity \<and> is_token token
        \<longrightarrow> s \<noteq> pre @ safe_token entity token @ post)"
proof
  assume mf: "marker_free s"
  show "\<forall>pre entity token post. is_entity_type entity \<and> is_token token
          \<longrightarrow> s \<noteq> pre @ safe_token entity token @ post"
  proof (intro allI impI notI)
    fix pre entity token post
    assume g: "is_entity_type entity \<and> is_token token"
      and eq: "s = pre @ safe_token entity token @ post"
    from mf eq have "marker_free (safe_token entity token @ post)"
      using marker_free_suffix by simp
    moreover obtain c cs where "safe_token entity token @ post = c # cs"
      by (simp add: safe_token_def)
    moreover have "match_at (safe_token entity token @ post) = Some (entity, token, post)"
      using g by (simp add: match_at_safe_token)
    ultimately show False by simp
  qed
next
  assume "\<forall>pre entity token post. is_entity_type entity \<and> is_token token
            \<longrightarrow> s \<noteq> pre @ safe_token entity token @ post"
  then show "marker_free s"
  proof (induction s)
    case Nil show ?case by simp
  next
    case (Cons c cs)
    have "match_at (c # cs) = None"
    proof (rule ccontr)
      assume "match_at (c # cs) \<noteq> None"
      then obtain e t r where "match_at (c # cs) = Some (e, t, r)" by auto
      from match_at_Some[OF this] Cons.prems[rule_format, of e t "[]" r]
      show False by simp
    qed
    moreover have "marker_free cs"
    proof (rule Cons.IH, intro allI impI notI)
      fix pre entity token post
      assume "is_entity_type entity \<and> is_token token" "cs = pre @ safe_token entity token @ post"
      with Cons.prems[rule_format, of entity token "c # pre" post] show False by simp
    qed
    ultimately show ?case by simp
  qed
qed

lemma findall_pos:
  "map groups (scan_markers p s) = map groups (scan_markers q s)"
proof (induction s arbitrary: p q rule: length_induct)
  case (1 s)
  show ?case
  proof (cases s)
    case Nil then show ?thesis by simp
  next
    case (Cons c cs)
    show ?thesis
    proof (cases "match_at (c # cs)")
      case None
      then show ?thesis using 1[rule_format, of cs "Suc p" "Suc q"] Cons by simp
    next
      case (Some a)
      obtain e t r where a: "a = (e, t, r)" by (cases a)
      have "length r < length s" using Some a Cons by (auto dest: match_at_shorter)
      from 1[rule_format, OF this] show ?thesis using Some a Cons by simp
    qed
  qed
qed

lemma findall_marker:
  assumes "is_entity_type entity" "is_token token"
  shows "findall (pre @ safe_token entity token @ post) = findall pre @ (entity, token) # findall post"
  unfolding findall_def scan_markers_marker[OF assms]
  using findall_pos[of _ post 0] by simp

text \<open>
  Claim C8. For every key and every text that has no substring of the marker grammar
  (no way to write it as some text, an encoded marker with an entity type in \<open>[A-Z_]+\<close>
  and a token in \<open>[A-Za-z0-9_-]+=*\<close>, and some text), the decryption pass returns the text
  unchanged, whatever the cipher does.
\<close>

theorem decrypt_idempotent_without_markers:
  assumes "\<forall>pre entity token post. is_entity_type entity \<and> is_token token
             \<longrightarrow> md_text \<noteq> pre @ safe_token entity token @ post"
  shows "decrypt_markers decrypt_text md_text key_b64 = md_text"
proof -
  have "marker_free md_text" unfolding marker_free_iff using assms by blast
  then show ?thesis by (rule marker_free_decrypt)
qed

text \<open>
  An instance: a text with two near-markers that the grammar rejects.
\<close>

theorem decrypt_idempotent_without_markers_witness:
  "marker_free ''See {{ENC:x}} and {{ENC:A:}}''
   \<and> decrypt_markers toy_decrypt ''See {{ENC:x}} and {{ENC:A:}}'' ''K1''
       = ''See {{ENC:x}} and {{ENC:A:}}''"
proof -
  have mf: "marker_free ''See {{ENC:x}} and {{ENC:A:}}''" by code_simp
  then have "\<forall>pre entity token post. is_entity_type entity \<and> is_token token
      \<longrightarrow> ''See {{ENC:x}} and {{ENC:A:}}'' \<noteq> pre @ safe_token entity token @ post"
    by (simp only: marker_free_iff)
  from decrypt_idempotent_without_markers[OF this, of toy_decrypt "''K1''"] mf
  show ?thesis by simp
qed

text \<open>
  Claim C7. For every entity type in \<open>[A-Z_]+\<close> and every token in
  \<open>[A-Za-z0-9_-]+=*\<close>, the scan of the encoded marker between two marker-free texts
  yields exactly that pair, at the marker's position. For a document of several markers
  with marker-free text before, between and after them, the scan yields every marker,
  in the order of the document, each span ending no later than the next begins, and each
  span holding exactly the text of its marker, so no match crosses a marker boundary.
\<close>

theorem marker_codec_round_trip:
  "(is_entity_type entity \<and> is_token token \<and> marker_free pre \<and> marker_free post \<longrightarrow>
      scan_markers 0 (pre @ safe_token entity token @ post)
        = [(entity, token, length pre, length pre + length (safe_token entity token))])
   \<and> (marker_free plain
        \<and> (\<forall>(e, t, p) \<in> set items. is_entity_type e \<and> is_token t \<and> marker_free p) \<longrightarrow>
        scan_markers 0 (embed_markers plain items) = marker_positions 0 plain items
      \<and> findall (embed_markers plain items) = map (\<lambda>(e, t, p). (e, t)) items
      \<and> sorted_wrt (\<lambda>(e1, t1, b1, n1) (e2, t2, b2, n2). n1 \<le> b2)
           (scan_markers 0 (embed_markers plain items))
      \<and> (\<forall>(e, t, b, n) \<in> set (scan_markers 0 (embed_markers plain items)).
            b < n \<and> take (n - b) (drop b (embed_markers plain items)) = safe_token e t))"
proof (intro conjI impI)
  assume h: "is_entity_type entity \<and> is_token token \<and> marker_free pre \<and> marker_free post"
  then show "scan_markers 0 (pre @ safe_token entity token @ post)
        = [(entity, token, length pre, length pre + length (safe_token entity token))]"
    by (simp add: scan_markers_marker marker_free_scan)
next
  assume h: "marker_free plain
        \<and> (\<forall>(e, t, p) \<in> set items. is_entity_type e \<and> is_token t \<and> marker_free p)"
  then have sc: "scan_markers 0 (embed_markers plain items) = marker_positions 0 plain items"
    by (intro scan_embed) simp_all
  show "scan_markers 0 (embed_markers plain items) = marker_positions 0 plain items"
    by (rule sc)
  show "findall (embed_markers plain items) = map (\<lambda>(e, t, p). (e, t)) items"
    by (simp add: findall_def sc marker_positions_fst)
  show "sorted_wrt (\<lambda>(e1, t1, b1, n1) (e2, t2, b2, n2). n1 \<le> b2)
           (scan_markers 0 (embed_markers plain items))"
    unfolding sc by (rule marker_positions_ordered)
  show "\<forall>(e, t, b, n) \<in> set (scan_markers 0 (embed_markers plain items)).
            b < n \<and> take (n - b) (drop b (embed_markers plain items)) = safe_token e t"
    unfolding sc
    using marker_positions_lower[of _ _ _ _ 0 plain items]
      marker_positions_text[of _ _ _ _ 0 plain items]
    by auto
qed

text \<open>
  An instance with two adjacent markers, between text that ends and starts with braces.
\<close>

theorem marker_codec_round_trip_witness:
  "is_entity_type ''A'' \<and> is_token ''x='' \<and> marker_free ''ab{{'' \<and> marker_free ''}}cd''
   \<and> scan_markers 0 (''ab{{'' @ safe_token ''A'' ''x='' @ ''}}cd'') = [(''A'', ''x='', 4, 16)]
   \<and> is_entity_type ''B_C'' \<and> is_token ''yz'' \<and> marker_free ''''
   \<and> scan_markers 0 (embed_markers ''ab{{'' [(''A'', ''x='', ''''), (''B_C'', ''yz'', ''}}cd'')])
       = [(''A'', ''x='', 4, 16), (''B_C'', ''yz'', 16, 30)]
   \<and> findall (embed_markers ''ab{{'' [(''A'', ''x='', ''''), (''B_C'', ''yz'', ''}}cd'')])
       = [(''A'', ''x=''), (''B_C'', ''yz'')]"
proof -
  have h1: "is_entity_type ''A'' \<and> is_token ''x='' \<and> marker_free ''ab{{'' \<and> marker_free ''}}cd''"
    by code_simp
  have h2: "is_entity_type ''B_C'' \<and> is_token ''yz'' \<and> marker_free ''''"
    by code_simp
  have h3: "marker_free ''ab{{'' \<and> (\<forall>(e, t, p) \<in> set [(''A'', ''x='', ''''), (''B_C'', ''yz'', ''}}cd'')].
              is_entity_type e \<and> is_token t \<and> marker_free p)"
    using h1 h2 by simp
  have len: "length (safe_token ''A'' ''x='') = 12" "length (safe_token ''B_C'' ''yz'') = 14"
    by (simp_all add: safe_token_def)
  from marker_codec_round_trip[of "''A''" "''x=''" "''ab{{''" "''}}cd''" "''ab{{''"
      "[(''A'', ''x='', ''''), (''B_C'', ''yz'', ''}}cd'')]"] h1 h2 h3 len
  show ?thesis by simp
qed

text \<open>
  Claim C4 says that the number of per-marker failures is reported to the caller. The
  command counts no failure: the one number it reports, \<open>markers_decrypted\<close>, is the number
  of markers found before decryption. On a document with one marker of the key and one of
  another key, one marker fails and the reported count is 2.
\<close>

theorem decrypt_failure_count_counterexample:
  "exit_code (main_decrypt toy_decrypt \<lparr>output_arg = None, outdir_arg = None\<rparr> True (Some ''K1'')
       ''{{ENC:A:K1_6a}}{{ENC:A:K2_6a}}'') = 0
   \<and> written (main_decrypt toy_decrypt \<lparr>output_arg = None, outdir_arg = None\<rparr> True (Some ''K1'')
       ''{{ENC:A:K1_6a}}{{ENC:A:K2_6a}}'') = Some ''j{{ENC:A:K2_6a}}''
   \<and> failed_markers toy_decrypt ''{{ENC:A:K1_6a}}{{ENC:A:K2_6a}}'' ''K1'' = 1
   \<and> markers_decrypted (main_decrypt toy_decrypt \<lparr>output_arg = None, outdir_arg = None\<rparr> True
       (Some ''K1'') ''{{ENC:A:K1_6a}}{{ENC:A:K2_6a}}'') = Some 2"
  by code_simp

text \<open>
  Claim C4, as the code has it. When the cipher rejects the token of a well-formed
  marker, the command still exits with status 0; the text it writes has that marker
  unchanged, between the decryption of what stands before it and of what stands after
  it, so every other marker is still processed; and \<open>markers_decrypted\<close> counts every
  marker found in the input, the failed one included.
\<close>

theorem decrypt_failure_recovery:
  assumes "is_entity_type entity" "is_token token"
    and "decrypt_text token key_bytes = None"
    and "\<not> (given (output_arg args) \<and> given (outdir_arg args))"
  shows "main_decrypt decrypt_text args True (Some key_bytes) (pre @ safe_token entity token @ post)
           = \<lparr>exit_code = 0,
               written = Some (decrypt_markers decrypt_text pre key_bytes
                               @ safe_token entity token
                               @ decrypt_markers decrypt_text post key_bytes),
               markers_decrypted = Some (length (findall pre) + 1 + length (findall post))\<rparr>"
  using assms
  by (simp add: main_decrypt_def findall_marker decrypt_markers_marker replace_marker_def)

text \<open>
  An instance: a marker of another key between two markers of the key.
\<close>

theorem decrypt_failure_recovery_witness:
  "is_entity_type ''A'' \<and> is_token ''K2_6a'' \<and> toy_decrypt ''K2_6a'' ''K1'' = None
   \<and> main_decrypt toy_decrypt \<lparr>output_arg = None, outdir_arg = None\<rparr> True (Some ''K1'')
       (''{{ENC:A:K1_6a}} and '' @ safe_token ''A'' ''K2_6a'' @ '' and {{ENC:B:K1_6b}}'')
     = \<lparr>exit_code = 0, written = Some ''j and {{ENC:A:K2_6a}} and k'',
         markers_decrypted = Some 3\<rparr>"
proof -
  have h: "is_entity_type ''A''" "is_token ''K2_6a''" "toy_decrypt ''K2_6a'' ''K1'' = None"
    "\<not> (given (output_arg \<lparr>output_arg = None, outdir_arg = None\<rparr>)
        \<and> given (outdir_arg \<lparr>output_arg = None, outdir_arg = None\<rparr>))"
    by code_simp+
  have v: "decrypt_markers toy_decrypt ''{{ENC:A:K1_6a}} and '' ''K1'' = ''j and ''"
    "decrypt_markers toy_decrypt '' and {{ENC:B:K1_6b}}'' ''K1'' = '' and k''"
    "length (findall ''{{ENC:A:K1_6a}} and '') = 1"
    "length (findall '' and {{ENC:B:K1_6b}}'') = 1"
    "safe_token ''A'' ''K2_6a'' = ''{{ENC:A:K2_6a}}''"
    by code_simp+
  from decrypt_failure_recovery[where entity = "''A''" and token = "''K2_6a''"
      and decrypt_text = toy_decrypt and key_bytes = "''K1''"
      and args = "\<lparr>output_arg = None, outdir_arg = None\<rparr>"
      and pre = "''{{ENC:A:K1_6a}} and ''" and post = "'' and {{ENC:B:K1_6b}}''", OF h]
    h(1-3) v
  show ?thesis by simp
qed

section \<open>Replacement engine: the length invariant\<close>

lemma encryption_loop_splice_all:
  "encryption_loop enc ent i k ms buf = splice_all (zip ms (encryption_subs enc ent i k ms)) buf"
  by (induction ms arbitrary: i buf) (simp_all add: Let_def)

lemma anonymization_loop_splice_all:
  "anonymization_loop h ms buf = splice_all (zip ms (map (placeholder h) ms)) buf"
  by (induction ms arbitrary: buf) simp_all

lemma length_encryption_subs: "length (encryption_subs enc ent i k ms) = length ms"
  by (induction ms arbitrary: i) simp_all

lemma clamp_index_in_range: "0 \<le> i \<Longrightarrow> i \<le> int n \<Longrightarrow> clamp_index n i = nat i"
  unfolding clamp_index_def by (auto simp: min_def)

lemma splice_in_range:
  assumes "0 \<le> s" "s \<le> e" "e \<le> int (length buf)"
  shows "splice buf s e r = take (nat s) buf @ r @ drop (nat e) buf"
  using assms by (simp add: splice_def slice_to_def slice_from_def clamp_index_in_range)

lemma length_splice:
  assumes "0 \<le> s" "s \<le> e" "e \<le> int (length buf)"
  shows "int (length (splice buf s e r)) = int (length buf) - (e - s) + int (length r)"
  using assms by (simp add: splice_in_range)

lemma length_slice:
  assumes "0 \<le> s" "s \<le> e" "e \<le> int (length buf)"
  shows "int (length (slice buf s e)) = e - s"
proof -
  have "slice buf s e = take (nat e - nat s) (drop (nat s) buf)"
    using assms by (simp add: slice_def clamp_index_in_range Let_def)
  moreover have "nat e - nat s \<le> length buf - nat s" using assms by linarith
  ultimately show ?thesis using assms by (simp add: min_def)
qed

lemma splice_all_length:
  assumes "\<forall>p \<in> set P. 0 \<le> start (fst p) \<and> start (fst p) \<le> end_offset (fst p)
             \<and> end_offset (fst p) \<le> int (length buf)"
    and "sorted_wrt (\<lambda>p q. end_offset (fst q) \<le> start (fst p)
                          \<or> end_offset (fst p) = start (fst p)) P"
  shows "int (length (splice_all P buf)) =
           int (length buf) - (\<Sum>p\<leftarrow>P. end_offset (fst p) - start (fst p))
             + (\<Sum>p\<leftarrow>P. int (length (snd p)))"
  using assms
proof (induction P arbitrary: buf)
  case Nil
  show ?case by simp
next
  case (Cons p P)
  obtain m r where p: "p = (m, r)" by (cases p)
  let ?buf = "splice buf (start m) (end_offset m) r"
  from Cons.prems(1) p have m: "0 \<le> start m" "start m \<le> end_offset m"
    "end_offset m \<le> int (length buf)" by auto
  have len: "int (length ?buf) = int (length buf) - (end_offset m - start m) + int (length r)"
    using m by (rule length_splice)
  have rng: "\<forall>q \<in> set P. 0 \<le> start (fst q) \<and> start (fst q) \<le> end_offset (fst q)
               \<and> end_offset (fst q) \<le> int (length ?buf)"
  proof
    fix q assume q: "q \<in> set P"
    with Cons.prems(1) have q1: "0 \<le> start (fst q)" "start (fst q) \<le> end_offset (fst q)"
      "end_offset (fst q) \<le> int (length buf)" by auto
    from Cons.prems(2) q p have "end_offset (fst q) \<le> start m \<or> end_offset m = start m"
      by auto
    then have "end_offset (fst q) \<le> int (length ?buf)"
      using len m q1 by auto
    with q1 show "0 \<le> start (fst q) \<and> start (fst q) \<le> end_offset (fst q)
               \<and> end_offset (fst q) \<le> int (length ?buf)" by simp
  qed
  have srt: "sorted_wrt (\<lambda>p q. end_offset (fst q) \<le> start (fst p)
                          \<or> end_offset (fst p) = start (fst p)) P"
    using Cons.prems(2) by simp
  show ?case
    using Cons.IH[OF rng srt] len by (simp add: p)
qed

lemma disjoint_spans_sym: "disjoint_spans a b \<Longrightarrow> disjoint_spans b a"
  by (auto simp: disjoint_spans_def)

lemma non_overlapping_insort:
  assumes "non_overlapping xs" "\<forall>y \<in> set xs. disjoint_spans x y"
  shows "non_overlapping (insort_key f x xs)"
  using assms by (induction xs) (auto simp: set_insort_key dest: disjoint_spans_sym)

lemma non_overlapping_sort: "non_overlapping xs \<Longrightarrow> non_overlapping (sort_key f xs)"
  by (induction xs) (auto intro: non_overlapping_insort)

lemma non_overlapping_sorted_wrt: "non_overlapping xs = sorted_wrt disjoint_spans xs"
  by (induction xs) auto

lemma matches_sorted_set: "set (matches_sorted ms) = set ms"
  by (simp add: matches_sorted_def)

lemma matches_sorted_descending:
  "sorted_wrt (\<lambda>a b. start b \<le> start a) (matches_sorted ms)"
proof -
  have "sorted (map (\<lambda>m. - start m) (matches_sorted ms))"
    by (simp add: matches_sorted_def)
  then show ?thesis by (simp add: sorted_map)
qed

lemma sorted_wrt_conj:
  "sorted_wrt P xs \<Longrightarrow> sorted_wrt Q xs \<Longrightarrow> sorted_wrt (\<lambda>a b. P a b \<and> Q a b) xs"
  by (induction xs) auto

lemma matches_sorted_splice_order:
  assumes "non_overlapping ms" "\<forall>m \<in> set ms. start m \<le> end_offset m"
  shows "sorted_wrt (\<lambda>a b. end_offset b \<le> start a \<or> end_offset a = start a) (matches_sorted ms)"
proof -
  let ?L = "matches_sorted ms"
  have "sorted_wrt disjoint_spans ?L"
    using assms(1) non_overlapping_sort[of ms]
    by (simp add: matches_sorted_def non_overlapping_sorted_wrt)
  then have "sorted_wrt (\<lambda>a b. start b \<le> start a \<and> disjoint_spans a b) ?L"
    using matches_sorted_descending[of ms] by (intro sorted_wrt_conj)
  then show ?thesis
  proof (rule sorted_wrt_mono_rel[rotated])
    fix a b assume "a \<in> set ?L" "b \<in> set ?L" "start b \<le> start a \<and> disjoint_spans a b"
    then show "end_offset b \<le> start a \<or> end_offset a = start a"
      using assms(2) by (auto simp: disjoint_spans_def matches_sorted_set)
  qed
qed

lemma sum_list_matches_sorted:
  "(\<Sum>m\<leftarrow>matches_sorted ms. (g m :: int)) = (\<Sum>m\<leftarrow>ms. g m)"
proof -
  have "mset (map g (matches_sorted ms)) = mset (map g ms)"
    by (simp add: matches_sorted_def)
  then show ?thesis by (metis sum_mset_sum_list)
qed

lemma splice_all_zip_length:
  assumes valid: "\<forall>m \<in> set ms. valid_match md_text m" and no: "non_overlapping ms"
    and len: "length subs = length (matches_sorted ms)"
  shows "int (length (splice_all (zip (matches_sorted ms) subs) md_text)) =
           int (length md_text) - (\<Sum>m\<leftarrow>ms. int (length (text_field m)))
             + (\<Sum>s\<leftarrow>subs. int (length s))"
proof -
  let ?L = "matches_sorted ms"
  let ?P = "zip ?L subs"
  have fstP: "map fst ?P = ?L" and sndP: "map snd ?P = subs" using len by simp_all
  have rng: "\<forall>p \<in> set ?P. 0 \<le> start (fst p) \<and> start (fst p) \<le> end_offset (fst p)
             \<and> end_offset (fst p) \<le> int (length md_text)"
    using valid by (auto simp: valid_match_def matches_sorted_set dest!: set_zip_leftD)
  have "sorted_wrt (\<lambda>a b. end_offset b \<le> start a \<or> end_offset a = start a) (map fst ?P)"
    unfolding fstP using no valid by (intro matches_sorted_splice_order) (auto simp: valid_match_def)
  then have srt: "sorted_wrt (\<lambda>p q. end_offset (fst q) \<le> start (fst p)
                          \<or> end_offset (fst p) = start (fst p)) ?P"
    by (simp add: sorted_wrt_map)
  have s1: "(\<Sum>p\<leftarrow>?P. end_offset (fst p) - start (fst p)) = (\<Sum>m\<leftarrow>?L. end_offset m - start m)"
    using arg_cong[OF fstP, of "\<lambda>l. sum_list (map (\<lambda>m. end_offset m - start m) l)"]
    by (simp add: comp_def)
  have s2: "(\<Sum>p\<leftarrow>?P. int (length (snd p))) = (\<Sum>s\<leftarrow>subs. int (length s))"
    using arg_cong[OF sndP, of "\<lambda>l. sum_list (map (\<lambda>s. int (length s)) l)"]
    by (simp add: comp_def)
  have "(\<Sum>m\<leftarrow>ms. end_offset m - start m) = (\<Sum>m\<leftarrow>ms. int (length (text_field m)))"
    using valid by (intro arg_cong[where f = sum_list] map_cong refl)
      (simp add: valid_match_def length_slice)
  then have s3: "(\<Sum>m\<leftarrow>?L. end_offset m - start m) = (\<Sum>m\<leftarrow>ms. int (length (text_field m)))"
    by (simp add: sum_list_matches_sorted)
  show ?thesis
    using splice_all_length[OF rng srt] by (simp add: s1 s2 s3)
qed

text \<open>
  Claim C5. For every text and every match list that is valid on it and pairwise
  non-overlapping, the rewritten document of either mode has the length of the text,
  minus the lengths of the captured texts, plus the lengths of the inserted substitution
  strings: the placeholders in anonymize mode, the markers in encrypt mode.
\<close>

theorem length_invariant:
  assumes "\<forall>m \<in> set matches. valid_match md_text m" and "non_overlapping matches"
  shows "int (length (apply_anonymization_replacements py_hash md_text matches)) =
           int (length md_text) - (\<Sum>m\<leftarrow>matches. int (length (text_field m)))
             + (\<Sum>m\<leftarrow>matches. int (length (placeholder py_hash m)))
       \<and> int (length (apply_encryption_replacements encrypt_text entropy md_text matches key_b64)) =
           int (length md_text) - (\<Sum>m\<leftarrow>matches. int (length (text_field m)))
             + (\<Sum>s\<leftarrow>encryption_subs encrypt_text entropy 0 key_b64 (matches_sorted matches).
                  int (length s))"
proof
  have "int (length (apply_anonymization_replacements py_hash md_text matches)) =
          int (length md_text) - (\<Sum>m\<leftarrow>matches. int (length (text_field m)))
            + (\<Sum>s\<leftarrow>map (placeholder py_hash) (matches_sorted matches). int (length s))"
    unfolding apply_anonymization_replacements_def anonymization_loop_splice_all
    using assms by (intro splice_all_zip_length) simp_all
  also have "(\<Sum>s\<leftarrow>map (placeholder py_hash) (matches_sorted matches). int (length s))
               = (\<Sum>m\<leftarrow>matches. int (length (placeholder py_hash m)))"
    using sum_list_matches_sorted[of "\<lambda>m. int (length (placeholder py_hash m))" matches]
    by (simp add: comp_def)
  finally show "int (length (apply_anonymization_replacements py_hash md_text matches)) =
           int (length md_text) - (\<Sum>m\<leftarrow>matches. int (length (text_field m)))
             + (\<Sum>m\<leftarrow>matches. int (length (placeholder py_hash m)))" .
next
  show "int (length (apply_encryption_replacements encrypt_text entropy md_text matches key_b64)) =
           int (length md_text) - (\<Sum>m\<leftarrow>matches. int (length (text_field m)))
             + (\<Sum>s\<leftarrow>encryption_subs encrypt_text entropy 0 key_b64 (matches_sorted matches).
                  int (length s))"
    unfolding apply_encryption_replacements_def encryption_loop_splice_all
    using assms by (intro splice_all_zip_length) (simp_all add: length_encryption_subs)
qed

text \<open>An instance on the concrete document, in both modes.\<close>

theorem length_invariant_witness:
  "valid_match example_text (example_matches ! 0) \<and> valid_match example_text (example_matches ! 1)
   \<and> non_overlapping example_matches
   \<and> apply_anonymization_replacements (\<lambda>s. 42) example_text example_matches
       = ''Hi [PERSON_42], call [PHONE_NUMBER_42]''
   \<and> int (length ''Hi [PERSON_42], call [PHONE_NUMBER_42]'') = 16 - (3 + 3) + (11 + 17)
   \<and> apply_encryption_replacements toy_encrypt (\<lambda>i. i) example_text example_matches ''K1''
       = ''Hi {{ENC:PERSON:K1_626f62}}, call {{ENC:PHONE_NUMBER:K1_353535}}''
   \<and> int (length ''Hi {{ENC:PERSON:K1_626f62}}, call {{ENC:PHONE_NUMBER:K1_353535}}'')
       = 16 - (3 + 3) + (30 + 24)"
proof -
  have v: "valid_match example_text (example_matches ! 0)"
    "valid_match example_text (example_matches ! 1)" "non_overlapping example_matches"
    by code_simp+
  have len: "length example_matches = 2" by code_simp
  have all: "\<forall>m \<in> set example_matches. valid_match example_text m"
    unfolding all_set_conv_all_nth len using v(1,2) by (auto simp: less_Suc_eq numeral_2_eq_2)
  have e: "apply_anonymization_replacements (\<lambda>s. 42) example_text example_matches
       = ''Hi [PERSON_42], call [PHONE_NUMBER_42]''"
    "apply_encryption_replacements toy_encrypt (\<lambda>i. i) example_text example_matches ''K1''
       = ''Hi {{ENC:PERSON:K1_626f62}}, call {{ENC:PHONE_NUMBER:K1_353535}}''"
    by code_simp+
  from length_invariant[OF all v(3), of "\<lambda>s. 42" toy_encrypt "\<lambda>i. i" "''K1''"] v e
  show ?thesis by simp
qed

section \<open>Replacement engine: round trip and order\<close>

lemma no_live_marker_suffix: "no_live_marker d k (pre @ s) \<Longrightarrow> no_live_marker d k s"
  by (induction pre) simp_all

lemma no_live_marker_prefix: "no_live_marker d k (s @ x) \<Longrightarrow> no_live_marker d k s"
proof (induction s)
  case Nil show ?case by simp
next
  case (Cons c cs)
  from Cons.prems have rest: "no_live_marker d k (cs @ x)"
    and here: "case match_at (c # cs @ x) of None \<Rightarrow> True | Some (e, t, r) \<Rightarrow> d t k = None"
    by simp_all
  have "case match_at (c # cs) of None \<Rightarrow> True | Some (e, t, r) \<Rightarrow> d t k = None"
  proof (cases "match_at (c # cs)")
    case None then show ?thesis by simp
  next
    case (Some a)
    obtain e t r where a: "a = (e, t, r)" by (cases a)
    from match_at_append[OF Some[unfolded a], of x] here Some a show ?thesis by simp
  qed
  with Cons.IH[OF rest] show ?case by simp
qed

lemma no_live_marker_decrypt: "no_live_marker d k s \<Longrightarrow> decrypt_markers d s k = s"
proof (induction d s k rule: decrypt_markers.induct)
  case (1 d k) show ?case by simp
next
  case (2 d c cs k)
  show ?case
  proof (cases "match_at (c # cs)")
    case None
    with 2 show ?thesis by simp
  next
    case (Some a)
    obtain e t r where a: "a = (e, t, r)" by (cases a)
    from match_at_Some[OF Some[unfolded a]] have eq: "c # cs = safe_token e t @ r" by simp
    from "2.prems" Some a have fail: "d t k = None" by simp
    have "no_live_marker d k r"
      using "2.prems" no_live_marker_suffix[of d k "safe_token e t" r] eq by metis
    then have r: "decrypt_markers d r k = r" using "2.IH"(2)[OF Some[unfolded a] refl refl] by simp
    have g0: "group0 (c # cs) r = safe_token e t"
      unfolding eq by (rule group0_marker)
    have "decrypt_markers d (c # cs) k
            = replace_marker d k t (group0 (c # cs) r) @ decrypt_markers d r k"
      using Some a by simp
    also have "\<dots> = safe_token e t @ r"
      using fail by (simp add: replace_marker_def g0 r)
    finally show ?thesis using eq by simp
  qed
qed

lemma splice_append:
  assumes "0 \<le> s" "s \<le> e" "e \<le> int (length pre)"
  shows "splice (pre @ tail) s e r = splice pre s e r @ tail"
proof -
  have "e \<le> int (length (pre @ tail))" using assms(3) by simp
  then show ?thesis using assms by (simp add: splice_in_range)
qed

lemma splice_all_append:
  assumes "\<forall>p \<in> set P. 0 \<le> start (fst p) \<and> start (fst p) \<le> end_offset (fst p)
             \<and> end_offset (fst p) \<le> int (length pre)"
    and "sorted_wrt (\<lambda>p q. end_offset (fst q) \<le> start (fst p)) P"
  shows "splice_all P (pre @ tail) = splice_all P pre @ tail"
  using assms
proof (induction P arbitrary: pre)
  case Nil show ?case by simp
next
  case (Cons p P)
  obtain m r where p: "p = (m, r)" by (cases p)
  from Cons.prems(1) p have m: "0 \<le> start m" "start m \<le> end_offset m"
    "end_offset m \<le> int (length pre)" by auto
  let ?pre = "splice pre (start m) (end_offset m) r"
  have len: "int (length ?pre) = int (length pre) - (end_offset m - start m) + int (length r)"
    using m by (rule length_splice)
  have rng: "\<forall>q \<in> set P. 0 \<le> start (fst q) \<and> start (fst q) \<le> end_offset (fst q)
               \<and> end_offset (fst q) \<le> int (length ?pre)"
  proof
    fix q assume q: "q \<in> set P"
    with Cons.prems(1) have q1: "0 \<le> start (fst q)" "start (fst q) \<le> end_offset (fst q)"
      by auto
    from Cons.prems(2) q p have "end_offset (fst q) \<le> start m" by auto
    then have "end_offset (fst q) \<le> int (length ?pre)" using len m by linarith
    with q1 show "0 \<le> start (fst q) \<and> start (fst q) \<le> end_offset (fst q)
               \<and> end_offset (fst q) \<le> int (length ?pre)" by simp
  qed
  have srt: "sorted_wrt (\<lambda>p q. end_offset (fst q) \<le> start (fst p)) P"
    using Cons.prems(2) by simp
  show ?case
    using Cons.IH[OF rng srt] by (simp add: p splice_append[OF m])
qed

lemma slice_take:
  assumes "0 \<le> i" "i \<le> j" "j \<le> int n" "int n \<le> int (length buf)"
  shows "slice (take n buf) i j = slice buf i j"
proof -
  have a: "slice buf i j = take (nat j - nat i) (drop (nat i) buf)"
    using assms by (simp add: slice_def clamp_index_in_range Let_def)
  have "length (take n buf) = n" using assms(4) by simp
  then have b: "slice (take n buf) i j = take (nat j - nat i) (drop (nat i) (take n buf))"
    using assms by (simp add: slice_def clamp_index_in_range Let_def)
  have "nat j - nat i \<le> n - nat i" using assms by linarith
  then show ?thesis unfolding a b by (simp add: drop_take min_def)
qed

lemma take_slice_drop:
  assumes "0 \<le> s" "s \<le> e" "e \<le> int (length buf)"
  shows "take (nat s) buf @ slice buf s e @ drop (nat e) buf = buf"
proof -
  have a: "slice buf s e = take (nat e - nat s) (drop (nat s) buf)"
    using assms by (simp add: slice_def clamp_index_in_range Let_def)
  have "take (nat e - nat s) (drop (nat s) buf) @ drop (nat e) buf = drop (nat s) buf"
  proof -
    have "drop (nat e) buf = drop (nat e - nat s) (drop (nat s) buf)"
      using assms by simp
    then show ?thesis by (simp only: append_take_drop_id)
  qed
  then show ?thesis unfolding a by (metis append_take_drop_id)
qed

lemma decrypt_splice_all:
  assumes "sorted_wrt (\<lambda>p q. end_offset (fst q) \<le> start (fst p)) P"
    and "\<forall>p \<in> set P. valid_match buf (fst p)"
    and "\<forall>p \<in> set P. \<exists>tok. snd p = safe_token (entity_type (fst p)) tok
            \<and> is_entity_type (entity_type (fst p)) \<and> is_token tok
            \<and> d tok k = Some (text_field (fst p))"
    and "no_live_marker d k buf"
  shows "decrypt_markers d (splice_all P buf) k = buf"
  using assms
proof (induction P arbitrary: buf)
  case Nil
  then show ?case by (simp add: no_live_marker_decrypt)
next
  case (Cons p P)
  obtain m r where p: "p = (m, r)" by (cases p)
  from Cons.prems(2) p have vm: "valid_match buf m" by simp
  then have m: "0 \<le> start m" "start m \<le> end_offset m" "end_offset m \<le> int (length buf)"
    and tf: "text_field m = slice buf (start m) (end_offset m)"
    by (simp_all add: valid_match_def)
  from Cons.prems(3) p obtain tok where r: "r = safe_token (entity_type m) tok"
    and g: "is_entity_type (entity_type m)" "is_token tok"
    and dec: "d tok k = Some (text_field m)" by auto
  let ?pre = "take (nat (start m)) buf"
  let ?post = "drop (nat (end_offset m)) buf"
  have lpre: "int (length ?pre) = start m" using m by simp
  have chain: "sorted_wrt (\<lambda>p q. end_offset (fst q) \<le> start (fst p)) P"
    using Cons.prems(1) by simp
  have below: "\<And>q. q \<in> set P \<Longrightarrow> end_offset (fst q) \<le> start m"
    using Cons.prems(1) p by auto
  have vq: "\<forall>q \<in> set P. valid_match ?pre (fst q)"
  proof
    fix q assume q: "q \<in> set P"
    with Cons.prems(2) have v: "valid_match buf (fst q)" by simp
    have e: "end_offset (fst q) \<le> int (nat (start m))" using below[OF q] m by simp
    have "slice ?pre (start (fst q)) (end_offset (fst q)) = slice buf (start (fst q)) (end_offset (fst q))"
      using v e m by (intro slice_take) (simp_all add: valid_match_def)
    with v e lpre show "valid_match ?pre (fst q)" by (simp add: valid_match_def)
  qed
  have rng: "\<forall>q \<in> set P. 0 \<le> start (fst q) \<and> start (fst q) \<le> end_offset (fst q)
               \<and> end_offset (fst q) \<le> int (length ?pre)"
    using vq by (simp add: valid_match_def)
  have sq: "\<forall>q \<in> set P. \<exists>tok. snd q = safe_token (entity_type (fst q)) tok
            \<and> is_entity_type (entity_type (fst q)) \<and> is_token tok
            \<and> d tok k = Some (text_field (fst q))"
    using Cons.prems(3) by simp
  have buf: "buf = ?pre @ slice buf (start m) (end_offset m) @ ?post"
    using take_slice_drop[OF m] by simp
  have npre: "no_live_marker d k ?pre"
    using Cons.prems(4) no_live_marker_prefix[of d k ?pre "drop (nat (start m)) buf"] by simp
  have npost: "no_live_marker d k ?post"
    using Cons.prems(4) no_live_marker_suffix[of d k "take (nat (end_offset m)) buf" ?post] by simp
  have "splice_all (p # P) buf = splice_all P (?pre @ r @ ?post)"
    using m by (simp add: p splice_in_range)
  also have "\<dots> = splice_all P ?pre @ r @ ?post"
    using rng chain by (rule splice_all_append)
  finally have "decrypt_markers d (splice_all (p # P) buf) k =
      decrypt_markers d (splice_all P ?pre) k
        @ replace_marker d k tok (safe_token (entity_type m) tok)
        @ decrypt_markers d ?post k"
    unfolding r by (simp add: decrypt_markers_marker[OF g])
  also have "\<dots> = ?pre @ slice buf (start m) (end_offset m) @ ?post"
    using Cons.IH[OF chain vq sq npre] no_live_marker_decrypt[OF npost] dec tf
    by (simp add: replace_marker_def)
  finally show ?case using buf by simp
qed

lemma encryption_subs_zip:
  "(m, r) \<in> set (zip ms (encryption_subs enc ent i k ms)) \<Longrightarrow>
     \<exists>j. r = safe_token (entity_type m) (enc (ent j) (text_field m) k)"
proof (induction ms arbitrary: i)
  case Nil then show ?case by simp
next
  case (Cons a ms)
  then show ?case by auto
qed

lemma matches_sorted_chain:
  assumes "non_overlapping ms" "\<forall>m \<in> set ms. start m < end_offset m"
  shows "sorted_wrt (\<lambda>a b. end_offset b \<le> start a) (matches_sorted ms)"
proof -
  let ?L = "matches_sorted ms"
  have "sorted_wrt disjoint_spans ?L"
    using assms(1) non_overlapping_sort[of ms]
    by (simp add: matches_sorted_def non_overlapping_sorted_wrt)
  then have "sorted_wrt (\<lambda>a b. start b \<le> start a \<and> disjoint_spans a b) ?L"
    using matches_sorted_descending[of ms] by (intro sorted_wrt_conj)
  then show ?thesis
  proof (rule sorted_wrt_mono_rel[rotated])
    fix a b assume "a \<in> set ?L" "b \<in> set ?L" "start b \<le> start a \<and> disjoint_spans a b"
    then show "end_offset b \<le> start a"
      using assms(2) by (fastforce simp: disjoint_spans_def matches_sorted_set)
  qed
qed

text \<open>
  Claim C1, as the code has it. Encrypting and then decrypting with the same key gives
  back the original text for every text and every pairwise non-overlapping list of valid
  matches, provided that every span is non-empty, every entity type matches \<open>[A-Z_]+\<close>,
  the cipher's tokens for the captured texts match \<open>[A-Za-z0-9_-]+=*\<close> and decrypt to
  them under the key, and the original text holds no marker that the key decrypts.
\<close>

theorem encrypt_decrypt_round_trip:
  assumes valid: "\<forall>m \<in> set matches. valid_match md_text m \<and> start m < end_offset m"
    and no: "non_overlapping matches"
    and ent: "\<forall>m \<in> set matches. is_entity_type (entity_type m)"
    and cipher: "\<forall>m \<in> set matches. \<forall>i.
        is_token (encrypt_text (entropy i) (text_field m) key)
        \<and> decrypt_text (encrypt_text (entropy i) (text_field m) key) key
            = Some (text_field m)"
    and live: "no_live_marker decrypt_text key md_text"
  shows "decrypt_markers decrypt_text
           (apply_encryption_replacements encrypt_text entropy md_text matches key) key
         = md_text"
proof -
  let ?L = "matches_sorted matches"
  let ?P = "zip ?L (encryption_subs encrypt_text entropy 0 key ?L)"
  have fstP: "map fst ?P = ?L" by (simp add: length_encryption_subs)
  have "sorted_wrt (\<lambda>a b. end_offset b \<le> start a) (map fst ?P)"
    unfolding fstP using no valid by (intro matches_sorted_chain) auto
  then have chain: "sorted_wrt (\<lambda>p q. end_offset (fst q) \<le> start (fst p)) ?P"
    by (simp add: sorted_wrt_map)
  have mem: "\<And>p. p \<in> set ?P \<Longrightarrow> fst p \<in> set matches"
    by (auto simp: matches_sorted_set dest!: set_zip_leftD)
  have v: "\<forall>p \<in> set ?P. valid_match md_text (fst p)"
    using valid mem by blast
  have s: "\<forall>p \<in> set ?P. \<exists>tok. snd p = safe_token (entity_type (fst p)) tok
            \<and> is_entity_type (entity_type (fst p)) \<and> is_token tok
            \<and> decrypt_text tok key = Some (text_field (fst p))"
  proof
    fix p assume p: "p \<in> set ?P"
    obtain m r where mr: "p = (m, r)" by (cases p)
    from encryption_subs_zip[OF p[unfolded mr]] obtain j where
      r: "r = safe_token (entity_type m) (encrypt_text (entropy j) (text_field m) key)" ..
    from mem[OF p] mr have "m \<in> set matches" by simp
    with ent cipher r mr show "\<exists>tok. snd p = safe_token (entity_type (fst p)) tok
            \<and> is_entity_type (entity_type (fst p)) \<and> is_token tok
            \<and> decrypt_text tok key = Some (text_field (fst p))"
      by auto
  qed
  show ?thesis
    unfolding apply_encryption_replacements_def encryption_loop_splice_all
    using chain v s live by (rule decrypt_splice_all)
qed

lemma filter_key_singleton:
  assumes "distinct (map f zs)" "k \<in> set zs"
  shows "filter (\<lambda>x. f k = f x) zs = [k]"
  using assms
proof (induction zs)
  case Nil then show ?case by simp
next
  case (Cons z zs)
  show ?case
  proof (cases "z = k")
    case True
    with Cons.prems(1) have "\<And>x. x \<in> set zs \<Longrightarrow> f k \<noteq> f x" by auto
    then have "filter (\<lambda>x. f k = f x) zs = []" by (simp add: filter_empty_conv)
    with True show ?thesis by simp
  next
    case False
    with Cons.prems have k: "k \<in> set zs" by auto
    then have "f k \<noteq> f z" using Cons.prems(1) by (force simp: image_iff)
    with Cons k show ?thesis by simp
  qed
qed

lemma matches_sorted_permutation:
  assumes p: "mset matches' = mset matches" and d: "distinct (map start matches)"
  shows "matches_sorted matches' = matches_sorted matches"
proof -
  let ?f = "\<lambda>m. - start m"
  have d1: "distinct (map ?f matches)"
    using d by (simp add: distinct_map inj_on_def)
  have "mset (map ?f matches') = mset (map ?f matches)" using p by simp
  then have d2: "distinct (map ?f matches')"
    using d1 mset_eq_imp_distinct_iff by blast
  have d3: "distinct (map ?f (sort_key ?f matches))"
    using d1 by (metis distinct_map distinct_sort set_sort)
  have "sort_key ?f matches' = sort_key ?f matches"
  proof (rule properties_for_sort_key)
    show "mset (sort_key ?f matches) = mset matches'" using p by simp
    show "sorted (map ?f (sort_key ?f matches))" by simp
    fix k assume k: "k \<in> set (sort_key ?f matches)"
    then have "k \<in> set matches'" using mset_eq_setD[OF p] by simp
    then have "filter (\<lambda>x. ?f k = ?f x) matches' = [k]"
      using d2 by (intro filter_key_singleton)
    moreover have "filter (\<lambda>x. ?f k = ?f x) (sort_key ?f matches) = [k]"
      using d3 k by (intro filter_key_singleton)
    ultimately show "filter (\<lambda>x. ?f k = ?f x) (sort_key ?f matches)
        = filter (\<lambda>x. ?f k = ?f x) matches'" by simp
  qed
  then show ?thesis by (simp add: matches_sorted_def)
qed

lemma non_overlapping_distinct_starts:
  assumes "non_overlapping ms" "\<forall>m \<in> set ms. start m < end_offset m"
  shows "distinct (map start ms)"
  using assms by (induction ms) (fastforce simp: disjoint_spans_def)+

text \<open>
  What holds of the order of the match list: when no two matches start at the same
  offset, the stable sort by descending start yields one list for every permutation of
  the input, and with it one sequence of splices and of cipher calls, so both rewriting
  passes give the same output.
\<close>

lemma replacement_order_insensitive:
  assumes "mset matches' = mset matches" and "distinct (map start matches)"
  shows "apply_anonymization_replacements py_hash md_text matches'
           = apply_anonymization_replacements py_hash md_text matches
       \<and> apply_encryption_replacements encrypt_text entropy md_text matches' key
           = apply_encryption_replacements encrypt_text entropy md_text matches key"
proof -
  have "matches_sorted matches' = matches_sorted matches"
    using assms by (intro matches_sorted_permutation)
  then show ?thesis
    by (simp add: apply_anonymization_replacements_def apply_encryption_replacements_def)
qed

text \<open>
  Claim C1 as stated, for every text and every non-overlapping list of valid matches,
  fails twice. A text that already holds a marker of the key (a document encrypted
  before with the same key) comes back with that marker decrypted too. And an empty span
  listed before a non-empty one with the same start is spliced first, so the second
  splice cuts into its marker and leaves the non-empty span's text in place. The last
  part shows why the entity types must match the grammar: the marker of an entity type
  with lower-case letters is not found by the decryption pass.
\<close>

theorem encrypt_decrypt_round_trip_counterexample:
  "valid_match marked_text (marked_matches ! 0)
   \<and> start (marked_matches ! 0) < end_offset (marked_matches ! 0)
   \<and> length marked_matches = 1
   \<and> non_overlapping marked_matches
   \<and> toy_decrypt (toy_encrypt 0 ''bob'' ''K1'') ''K1'' = Some ''bob''
   \<and> apply_encryption_replacements toy_encrypt (\<lambda>i. i) marked_text marked_matches ''K1''
       = ''{{ENC:A:K1_6a}} {{ENC:PERSON:K1_626f62}}''
   \<and> decrypt_markers toy_decrypt
        (apply_encryption_replacements toy_encrypt (\<lambda>i. i) marked_text marked_matches ''K1'')
        ''K1'' = ''j bob''
   \<and> decrypt_markers toy_decrypt
        (apply_encryption_replacements toy_encrypt (\<lambda>i. i) marked_text marked_matches ''K1'')
        ''K1'' \<noteq> marked_text
   \<and> valid_match ''abcdefgh'' empty_span \<and> valid_match ''abcdefgh'' tail_span
   \<and> non_overlapping [empty_span, tail_span]
   \<and> decrypt_markers toy_decrypt
        (apply_encryption_replacements toy_encrypt (\<lambda>i. i) ''abcdefgh''
           [empty_span, tail_span] ''K1'')
        ''K1'' = ''abcdefghNC:A:K1_}}fgh''
   \<and> valid_match ''to bob''
        \<lparr>start = 3, end_offset = 6, entity_type = ''Person'', score = 0.85,
           text_field = ''bob'', line = 1, column = 4\<rparr>
   \<and> \<not> is_entity_type ''Person''
   \<and> decrypt_markers toy_decrypt
        (apply_encryption_replacements toy_encrypt (\<lambda>i. i) ''to bob''
           [\<lparr>start = 3, end_offset = 6, entity_type = ''Person'', score = 0.85,
              text_field = ''bob'', line = 1, column = 4\<rparr>] ''K1'')
        ''K1'' = ''to {{ENC:Person:K1_626f62}}''"
  by code_simp

text \<open>
  The round trip on the concrete document.
\<close>

theorem encrypt_decrypt_round_trip_witness:
  "valid_match example_text (example_matches ! 0) \<and> valid_match example_text (example_matches ! 1)
   \<and> non_overlapping example_matches
   \<and> no_live_marker toy_decrypt ''K1'' example_text
   \<and> apply_encryption_replacements toy_encrypt (\<lambda>i. i) example_text example_matches ''K1''
       = ''Hi {{ENC:PERSON:K1_626f62}}, call {{ENC:PHONE_NUMBER:K1_353535}}''
   \<and> decrypt_markers toy_decrypt
        ''Hi {{ENC:PERSON:K1_626f62}}, call {{ENC:PHONE_NUMBER:K1_353535}}'' ''K1''
       = example_text"
proof -
  have len: "length example_matches = 2" by code_simp
  have v: "valid_match example_text (example_matches ! 0)"
    "valid_match example_text (example_matches ! 1)"
    "start (example_matches ! 0) < end_offset (example_matches ! 0)"
    "start (example_matches ! 1) < end_offset (example_matches ! 1)"
    "is_entity_type (entity_type (example_matches ! 0))"
    "is_entity_type (entity_type (example_matches ! 1))"
    by code_simp+
  have no: "non_overlapping example_matches" by code_simp
  have tf: "text_field (example_matches ! 0) = ''bob''"
    "text_field (example_matches ! Suc 0) = ''555''"
    by (simp_all add: example_matches_def)
  have tk: "\<And>i. toy_encrypt i ''bob'' ''K1'' = ''K1_626f62''"
    "\<And>i. toy_encrypt i ''555'' ''K1'' = ''K1_353535''"
    by (simp_all add: toy_encrypt_def hex_char_def)
  have c0: "is_token ''K1_626f62''" "toy_decrypt ''K1_626f62'' ''K1'' = Some ''bob''"
    "is_token ''K1_353535''" "toy_decrypt ''K1_353535'' ''K1'' = Some ''555''"
    by code_simp+
  have h1: "\<forall>m \<in> set example_matches. valid_match example_text m \<and> start m < end_offset m"
    unfolding all_set_conv_all_nth len using v by (auto simp: less_Suc_eq numeral_2_eq_2)
  have h2: "\<forall>m \<in> set example_matches. is_entity_type (entity_type m)"
    unfolding all_set_conv_all_nth len using v by (auto simp: less_Suc_eq numeral_2_eq_2)
  have h3: "\<forall>m \<in> set example_matches. \<forall>i.
        is_token (toy_encrypt ((\<lambda>i. i) i) (text_field m) ''K1'')
        \<and> toy_decrypt (toy_encrypt ((\<lambda>i. i) i) (text_field m) ''K1'') ''K1''
            = Some (text_field m)"
    unfolding all_set_conv_all_nth len
    using c0 by (auto simp: less_Suc_eq numeral_2_eq_2 tf tk)
  have live: "no_live_marker toy_decrypt ''K1'' example_text" by code_simp
  have e: "apply_encryption_replacements toy_encrypt (\<lambda>i. i) example_text example_matches ''K1''
       = ''Hi {{ENC:PERSON:K1_626f62}}, call {{ENC:PHONE_NUMBER:K1_353535}}''"
    by code_simp
  from encrypt_decrypt_round_trip[where matches = example_matches and md_text = example_text
      and encrypt_text = toy_encrypt and entropy = "\<lambda>i. i" and key = "''K1''"
      and decrypt_text = toy_decrypt, OF h1 no h2 h3 live] v no live e
  show ?thesis by simp
qed

text \<open>
  Claim C10 says that the output of the replacement engine does not depend on the order
  of the match list, for every pairwise non-overlapping valid match set. The code breaks
  it on an empty span and a non-empty span with the same start: the two are valid and do
  not intersect, the stable sort keeps them in input order, and when the empty span comes
  first the second splice cuts into its placeholder and leaves the text of the non-empty
  span in the document.
\<close>

theorem replacement_order_tie:
  "valid_match ''abcdefgh'' empty_span \<and> valid_match ''abcdefgh'' tail_span
   \<and> non_overlapping [empty_span, tail_span] \<and> non_overlapping [tail_span, empty_span]
   \<and> (start empty_span, end_offset empty_span) \<noteq> (start tail_span, end_offset tail_span)
   \<and> apply_anonymization_replacements (\<lambda>s. 7) ''abcdefgh'' [empty_span, tail_span]
       = ''abcde[B_7]7]fgh''
   \<and> apply_anonymization_replacements (\<lambda>s. 7) ''abcdefgh'' [tail_span, empty_span]
       = ''abcde[A_7][B_7]''
   \<and> apply_anonymization_replacements (\<lambda>s. 7) ''abcdefgh'' [empty_span, tail_span]
       \<noteq> apply_anonymization_replacements (\<lambda>s. 7) ''abcdefgh'' [tail_span, empty_span]"
  by code_simp

section \<open>The detector: failing closed\<close>

lemma scan_line_starts_bound: "ls \<noteq> [] \<Longrightarrow> scan_line_starts offset 0 0 ls < length ls"
proof -
  assume ne: "ls \<noteq> []"
  have "length (takeWhile (\<lambda>s. s \<le> offset) ls) \<le> length ls" by (rule length_takeWhile_le)
  then show ?thesis using ne
    by (cases "takeWhile (\<lambda>s. s \<le> offset) ls") (auto simp: scan_line_starts_takeWhile)
qed

lemma offset_to_line_col_total:
  "\<exists>line_no col_no. offset_to_line_col offset (calculate_line_col_map md_text) = Some (line_no, col_no)"
proof -
  have "calculate_line_col_map md_text \<noteq> []" by (simp add: calculate_line_col_map_def)
  then show ?thesis
    using scan_line_starts_bound[of "calculate_line_col_map md_text" offset]
    by (simp add: offset_to_line_col_def Let_def)
qed

lemma to_match_total:
  "\<exists>m. to_match md_text (calculate_line_col_map md_text) r = Inr m
     \<and> start m = r_start r \<and> end_offset m = r_end r \<and> entity_type m = r_entity_type r
     \<and> text_field m = slice md_text (r_start r) (r_end r)"
proof -
  obtain line_no col_no where
    "offset_to_line_col (r_start r) (calculate_line_col_map md_text) = Some (line_no, col_no)"
    using offset_to_line_col_total by blast
  then show ?thesis by (simp add: to_match_def)
qed

lemma to_matches_total:
  "\<exists>ms. to_matches md_text (calculate_line_col_map md_text) rs = Inr ms
     \<and> map start ms = map r_start rs \<and> map end_offset ms = map r_end rs
     \<and> map entity_type ms = map r_entity_type rs
     \<and> map text_field ms = map (\<lambda>r. slice md_text (r_start r) (r_end r)) rs"
proof (induction rs)
  case Nil show ?case by simp
next
  case (Cons r rs)
  from to_match_total[of md_text r] obtain m where
    m: "to_match md_text (calculate_line_col_map md_text) r = Inr m"
    "start m = r_start r" "end_offset m = r_end r" "entity_type m = r_entity_type r"
    "text_field m = slice md_text (r_start r) (r_end r)" by blast
  from Cons obtain ms where
    ms: "to_matches md_text (calculate_line_col_map md_text) rs = Inr ms"
    "map start ms = map r_start rs" "map end_offset ms = map r_end rs"
    "map entity_type ms = map r_entity_type rs"
    "map text_field ms = map (\<lambda>r. slice md_text (r_start r) (r_end r)) rs" by blast
  show ?case
    by (rule exI[of _ "m # ms"]) (simp add: m ms)
qed

lemma to_matches_length:
  "to_matches md_text ls rs = Inr ms \<Longrightarrow> length ms = length rs"
  by (induction rs arbitrary: ms) (auto split: sum.splits)

lemma try_engine_Ok: "try_engine c = Ok a \<longleftrightarrow> c = Ok a \<and> engine_works c"
  by (auto simp: try_engine_def engine_works_def split: attempt.splits)

lemma try_engine_Raised: "try_engine c = Raised \<longleftrightarrow> engine_raises c"
  by (auto simp: try_engine_def engine_raises_def split: attempt.splits)

lemma build_analyzer_Inr:
  assumes "build_analyzer env = Inr a"
  shows "presidio_importable env
     \<and> (\<exists>i < length (engines env). engines env ! i = Ok a \<and> engine_works (engines env ! i)
            \<and> (\<forall>j < i. engine_raises (engines env ! j)))"
proof -
  from assms have imp: "presidio_importable env"
    by (auto simp: build_analyzer_def split: if_splits)
  from assms imp consider
    (lg) "try_engine (engine_lg env) = Ok a"
    | (sm) "try_engine (engine_lg env) = Raised" "try_engine (engine_sm env) = Ok a"
    | (df) "try_engine (engine_lg env) = Raised" "try_engine (engine_sm env) = Raised"
        "try_engine (engine_default env) = Ok a"
    by (auto simp: build_analyzer_def split: attempt.splits)
  then have "\<exists>i < length (engines env). engines env ! i = Ok a \<and> engine_works (engines env ! i)
            \<and> (\<forall>j < i. engine_raises (engines env ! j))"
  proof cases
    case lg
    then show ?thesis
      by (intro exI[of _ 0]) (auto simp: engines_def try_engine_Ok)
  next
    case sm
    then show ?thesis
      by (intro exI[of _ 1]) (auto simp: engines_def try_engine_Ok try_engine_Raised)
  next
    case df
    then show ?thesis
      by (intro exI[of _ 2])
        (auto simp: engines_def try_engine_Ok try_engine_Raised less_Suc_eq numeral_2_eq_2)
  qed
  with imp show ?thesis by simp
qed

lemma analyze_pii_Inr:
  assumes "analyze_pii env md_text entities = Inr ms"
  shows "detector_available env md_text entities
     \<and> (\<exists>i < length (engines env). \<exists>a results. engines env ! i = Ok a
            \<and> a md_text entities = Ok results \<and> length ms = length results)"
proof -
  from assms obtain a results where b: "build_analyzer env = Inr a"
    and r: "a md_text entities = Ok results"
    and t: "to_matches md_text (calculate_line_col_map md_text) results = Inr ms"
    by (auto simp: analyze_pii_def split: if_splits sum.splits attempt.splits)
  from build_analyzer_Inr[OF b] obtain i where imp: "presidio_importable env"
    and i: "i < length (engines env)" "engines env ! i = Ok a" "engine_works (engines env ! i)"
      "\<forall>j < i. engine_raises (engines env ! j)" by blast
  have ret: "engine_returns (engines env ! i) md_text entities"
    using i(2) r by (simp add: engine_returns_def)
  have "detector_available env md_text entities"
    unfolding detector_available_def using imp i ret by blast
  moreover have "length ms = length results" using t by (rule to_matches_length)
  ultimately show ?thesis using i(1,2) r by blast
qed

lemma analyze_pii_unavailable:
  assumes "detector_unavailable env md_text entities"
  shows "\<exists>e. analyze_pii env md_text entities = Inl e"
proof (cases "analyze_pii env md_text entities")
  case (Inl e) then show ?thesis by simp
next
  case (Inr ms)
  from analyze_pii_Inr[OF Inr] assms show ?thesis by (simp add: detector_unavailable_def)
qed

text \<open>
  Claim C9. When the package cannot be imported the analysis raises \<open>ImportError\<close>;
  when each of the three engines raises at its construction or warm-up,
  \<open>build_analyzer\<close> and with it the analysis raise \<open>RuntimeError\<close>. Whenever the
  detector is unavailable for a document (in the terms of the environment: no engine is
  reached, built, warmed up and returns on the document), the analysis fails with an
  error and never returns the empty match list; the encrypt command then ends without
  status 0 and without a report, and has written nothing but what the PDF conversion
  wrote before the analysis, so no rewrite took place. Conversely a match list, empty or
  not, is returned only when the detector is available and one of the engines returned
  on the document, one match per result.
\<close>

theorem detector_fail_closed:
  "(\<not> presidio_importable env \<longrightarrow> analyze_pii env md_text entities = Inl ImportError)
   \<and> (presidio_importable env \<and> engine_raises (engine_lg env) \<and> engine_raises (engine_sm env)
        \<and> engine_raises (engine_default env)
        \<longrightarrow> build_analyzer env = Inl RuntimeError
            \<and> analyze_pii env md_text entities = Inl RuntimeError)
   \<and> (detector_unavailable env md_text entities \<longrightarrow>
        (\<exists>e. analyze_pii env md_text entities = Inl e)
        \<and> analyze_pii env md_text entities \<noteq> Inr [])
   \<and> (detector_unavailable env md_text entities
        \<and> convert_if_needed doc = Inr (converted, md_text) \<longrightarrow>
        (\<forall>run. run = main_encrypt fernet_accepts encrypt_text entropy py_hash env args mode_arg
                       entities input_is_file key_result doc
           \<longrightarrow> report run = None \<and> status run \<noteq> Inr 0
               \<and> (writes run = [] \<or> writes run = converted)))
   \<and> (\<forall>ms. analyze_pii env md_text entities = Inr ms \<longrightarrow>
        detector_available env md_text entities
        \<and> (\<exists>i < length (engines env). \<exists>a results. engines env ! i = Ok a
              \<and> a md_text entities = Ok results \<and> length ms = length results))"
proof -
  have part1: "analyze_pii env md_text entities = Inl ImportError"
    if "\<not> presidio_importable env"
    using that by (simp add: analyze_pii_def)
  have part2: "build_analyzer env = Inl RuntimeError
      \<and> analyze_pii env md_text entities = Inl RuntimeError"
    if "presidio_importable env \<and> engine_raises (engine_lg env)
        \<and> engine_raises (engine_sm env) \<and> engine_raises (engine_default env)"
  proof -
    from that have "try_engine (engine_lg env) = Raised" "try_engine (engine_sm env) = Raised"
      "try_engine (engine_default env) = Raised" by (simp_all add: try_engine_Raised)
    then have "build_analyzer env = Inl RuntimeError"
      using that by (simp add: build_analyzer_def)
    then show ?thesis using that by (simp add: analyze_pii_def)
  qed
  have part3: "(\<exists>e. analyze_pii env md_text entities = Inl e)
        \<and> analyze_pii env md_text entities \<noteq> Inr []"
    if "detector_unavailable env md_text entities"
    using analyze_pii_unavailable[OF that] by auto
  have part4: "report run = None \<and> status run \<noteq> Inr 0
               \<and> (writes run = [] \<or> writes run = converted)"
    if u: "detector_unavailable env md_text entities"
      and c: "convert_if_needed doc = Inr (converted, md_text)"
      and r: "run = main_encrypt fernet_accepts encrypt_text entropy py_hash env args mode_arg
                       entities input_is_file key_result doc" for run
  proof -
    from analyze_pii_unavailable[OF u] obtain e where "analyze_pii env md_text entities = Inl e" ..
    then show ?thesis unfolding r by (simp add: main_encrypt_def c)
  qed
  have part5: "detector_available env md_text entities
        \<and> (\<exists>i < length (engines env). \<exists>a results. engines env ! i = Ok a
              \<and> a md_text entities = Ok results \<and> length ms = length results)"
    if "analyze_pii env md_text entities = Inr ms" for ms
    using that by (rule analyze_pii_Inr)
  show ?thesis
  proof (intro conjI)
    show "\<not> presidio_importable env \<longrightarrow> analyze_pii env md_text entities = Inl ImportError"
      using part1 by (rule impI)
    show "presidio_importable env \<and> engine_raises (engine_lg env) \<and> engine_raises (engine_sm env)
        \<and> engine_raises (engine_default env)
        \<longrightarrow> build_analyzer env = Inl RuntimeError
            \<and> analyze_pii env md_text entities = Inl RuntimeError"
      using part2 by (rule impI)
    show "detector_unavailable env md_text entities \<longrightarrow>
        (\<exists>e. analyze_pii env md_text entities = Inl e)
        \<and> analyze_pii env md_text entities \<noteq> Inr []"
      using part3 by (rule impI)
    show "detector_unavailable env md_text entities
        \<and> convert_if_needed doc = Inr (converted, md_text) \<longrightarrow>
        (\<forall>run. run = main_encrypt fernet_accepts encrypt_text entropy py_hash env args mode_arg
                       entities input_is_file key_result doc
           \<longrightarrow> report run = None \<and> status run \<noteq> Inr 0
               \<and> (writes run = [] \<or> writes run = converted))"
    proof (intro impI allI)
      fix run
      assume "detector_unavailable env md_text entities
        \<and> convert_if_needed doc = Inr (converted, md_text)"
        and "run = main_encrypt fernet_accepts encrypt_text entropy py_hash env args mode_arg
                       entities input_is_file key_result doc"
      then show "report run = None \<and> status run \<noteq> Inr 0
               \<and> (writes run = [] \<or> writes run = converted)"
        using part4[of run] by simp
    qed
    show "\<forall>ms. analyze_pii env md_text entities = Inr ms \<longrightarrow>
        detector_available env md_text entities
        \<and> (\<exists>i < length (engines env). \<exists>a results. engines env ! i = Ok a
              \<and> a md_text entities = Ok results \<and> length ms = length results)"
      using part5 by (intro allI impI)
  qed
qed

text \<open>
  Instances: an environment without the package, one whose only engine raises at the
  warm-up (on a PDF and on a Markdown input), and one with a working engine.
\<close>

theorem detector_fail_closed_witness:
  "\<not> presidio_importable no_presidio_env
   \<and> analyze_pii no_presidio_env example_text None = Inl ImportError
   \<and> presidio_importable broken_env \<and> engine_raises (engine_lg broken_env)
   \<and> engine_raises (engine_sm broken_env) \<and> engine_raises (engine_default broken_env)
   \<and> build_analyzer broken_env = Inl RuntimeError
   \<and> analyze_pii broken_env example_text None = Inl RuntimeError
   \<and> detector_unavailable broken_env example_text None
   \<and> convert_if_needed (Pdf (Some example_text)) = Inr ([(DefaultMd, example_text)], example_text)
   \<and> main_encrypt (\<lambda>k. True) toy_encrypt (\<lambda>i. i) (\<lambda>s. 42) broken_env no_args Anonymize None True
        (None :: string option) (Pdf (Some example_text))
       = \<lparr>writes = [(DefaultMd, example_text)], report = None, status = Inl RuntimeError\<rparr>
   \<and> main_encrypt (\<lambda>k. True) toy_encrypt (\<lambda>i. i) (\<lambda>s. 42) broken_env no_args Anonymize None True
        (None :: string option) (Markdown example_text)
       = \<lparr>writes = [], report = None, status = Inl RuntimeError\<rparr>
   \<and> (\<exists>ms. analyze_pii example_env example_text None = Inr ms \<and> length ms = 2)
   \<and> detector_available example_env example_text None"
proof -
  note inst = detector_fail_closed[where md_text = example_text and entities = None]
  have n: "\<not> presidio_importable no_presidio_env" by (simp add: no_presidio_env_def)
  have n1: "analyze_pii no_presidio_env example_text None = Inl ImportError"
    using inst[where env = no_presidio_env, THEN conjunct1] n by simp
  have h: "presidio_importable broken_env \<and> engine_raises (engine_lg broken_env)
     \<and> engine_raises (engine_sm broken_env) \<and> engine_raises (engine_default broken_env)"
    by (simp add: broken_env_def engine_raises_def failing_analyzer_def)
  have b: "build_analyzer broken_env = Inl RuntimeError
      \<and> analyze_pii broken_env example_text None = Inl RuntimeError"
    using inst[where env = broken_env, THEN conjunct2, THEN conjunct1] h by simp
  have nw: "\<And>c. c \<in> set (engines broken_env) \<Longrightarrow> \<not> engine_works c"
    by (auto simp: engines_def broken_env_def engine_works_def failing_analyzer_def)
  have u: "detector_unavailable broken_env example_text None"
    unfolding detector_unavailable_def detector_available_def using nw nth_mem by blast
  have c: "convert_if_needed (Pdf (Some example_text))
      = Inr ([(DefaultMd, example_text)], example_text)" by simp
  have m1: "main_encrypt (\<lambda>k. True) toy_encrypt (\<lambda>i. i) (\<lambda>s. 42) broken_env no_args Anonymize
        None True (None :: string option) (Pdf (Some example_text))
       = \<lparr>writes = [(DefaultMd, example_text)], report = None, status = Inl RuntimeError\<rparr>"
    using b by (simp add: main_encrypt_def no_args_def)
  have m2: "main_encrypt (\<lambda>k. True) toy_encrypt (\<lambda>i. i) (\<lambda>s. 42) broken_env no_args Anonymize
        None True (None :: string option) (Markdown example_text)
       = \<lparr>writes = [], report = None, status = Inl RuntimeError\<rparr>"
    using b by (simp add: main_encrypt_def no_args_def)
  let ?rs = "[\<lparr>r_start = 3, r_end = 6, r_entity_type = ''PERSON'', r_score = Some 0.85\<rparr>,
         \<lparr>r_start = 13, r_end = 16, r_entity_type = ''PHONE_NUMBER'', r_score = None\<rparr>]"
  have w: "example_analyzer ''warm up'' None = Ok ?rs" "example_analyzer example_text None = Ok ?rs"
    by (simp_all only: example_analyzer_def)
  have t: "try_engine Raised = Raised" "try_engine (Ok example_analyzer) = Ok example_analyzer"
    by (simp_all add: try_engine_def w)
  have be: "build_analyzer example_env = Inr example_analyzer"
    by (simp add: build_analyzer_def example_env_def t)
  have imp: "presidio_importable example_env" by (simp add: example_env_def)
  have an: "analyze_pii example_env example_text None
              = to_matches example_text (calculate_line_col_map example_text) ?rs"
    by (simp add: analyze_pii_def be w(2) imp del: to_matches.simps)
  obtain ms where "to_matches example_text (calculate_line_col_map example_text) ?rs = Inr ms"
    using to_matches_total[of example_text ?rs] by (elim exE conjE)
  with an have ms: "analyze_pii example_env example_text None = Inr ms" by simp
  from inst[where env = example_env, THEN conjunct2, THEN conjunct2, THEN conjunct2,
      THEN conjunct2] ms
  have av: "detector_available example_env example_text None" by simp
  from ms an have "to_matches example_text (calculate_line_col_map example_text) ?rs = Inr ms"
    by simp
  then have "length ms = length ?rs" by (rule to_matches_length)
  then have l: "length ms = 2" by simp
  have ex: "\<exists>ms. analyze_pii example_env example_text None = Inr ms \<and> length ms = 2"
    using ms l by (intro exI[of _ ms] conjI)
  from h have h1: "presidio_importable broken_env" and h2: "engine_raises (engine_lg broken_env)"
    and h3: "engine_raises (engine_sm broken_env)"
    and h4: "engine_raises (engine_default broken_env)" by simp_all
  from b have b1: "build_analyzer broken_env = Inl RuntimeError"
    and b2: "analyze_pii broken_env example_text None = Inl RuntimeError" by simp_all
  show ?thesis
    apply (intro conjI)
    apply (rule n)
    apply (rule n1)
    apply (rule h1)
    apply (rule h2)
    apply (rule h3)
    apply (rule h4)
    apply (rule b1)
    apply (rule b2)
    apply (rule u)
    apply (rule c)
    apply (rule m1)
    apply (rule m2)
    apply (rule ex)
    apply (rule av)
    done
qed

section \<open>The encrypt command: no validation\<close>




section \<open>Anonymization and the hash seed\<close>

text \<open>
  Claim C3 says that the suffix of a placeholder does not depend on the process or the
  run. The suffix is \<open>abs(hash(m.text)) % 10000\<close>, and Python's \<open>hash\<close> of a string is
  salted per process: under the hash functions of two processes that give the match text
  two values, the same text and match yield two different documents.
\<close>

theorem anonymization_hash_seed_dependence:
  "apply_anonymization_replacements (\<lambda>s. 1234) ''Contact: john@example.com''
     [\<lparr>start = 9, end_offset = 25, entity_type = ''EMAIL_ADDRESS'', score = 0.85,
        text_field = ''john@example.com'', line = 1, column = 10\<rparr>]
     = ''Contact: [EMAIL_ADDRESS_1234]''
   \<and> apply_anonymization_replacements (\<lambda>s. - 6789012) ''Contact: john@example.com''
     [\<lparr>start = 9, end_offset = 25, entity_type = ''EMAIL_ADDRESS'', score = 0.85,
        text_field = ''john@example.com'', line = 1, column = 10\<rparr>]
     = ''Contact: [EMAIL_ADDRESS_9012]''"
  by (simp add: apply_anonymization_replacements_def matches_sorted_def splice_def slice_to_def
      slice_from_def clamp_index_def placeholder_def)

end
